theory Spec2Isabelle
  imports Complex_Main "HOL-Library.Char_ord" "HOL-Library.List_Lexorder"
begin

section \<open>Data model\<close>

text \<open>
  The store is an SQLite database with four tables. A table is the list of its rows in
  scan order; an INSERT appends. Identifiers are the strings \<open>randomUUID()\<close> returns,
  timestamps are the strings \<open>datetime('now')\<close> returns, compared bytewise as SQLite's
  default collation does. JavaScript numbers that carry similarities are exact
  rationals here: the rounding of IEEE arithmetic is not part of the model, only the
  comparisons and the arithmetic the code writes.
\<close>

type_synonym ident = string
type_synonym timestamp = string
type_synonym vec = "rat list"

record entity =
  ent_id :: ident
  ent_name :: string
  ent_type :: "string option"
  ent_created_at :: timestamp
  ent_updated_at :: timestamp

record observation =
  obs_id :: ident
  obs_entity_id :: ident
  obs_content :: string
  obs_source :: "string option"
  obs_created_at :: timestamp

record relationship =
  rel_id :: ident
  rel_from_entity :: ident
  rel_to_entity :: ident
  rel_relation_type :: string
  rel_created_at :: timestamp

record embedding =
  emb_id :: ident
  emb_entity_id :: ident
  emb_observation_id :: ident
  emb_vector :: vec
  emb_text_content :: string
  emb_created_at :: timestamp

text \<open>
  The state an operation runs on: the four tables, the wall clock that
  \<open>datetime('now')\<close> reads, and the position in the stream of identifiers that
  \<open>randomUUID()\<close> draws from.
\<close>

record state =
  entities :: "entity list"
  observations :: "observation list"
  relationships :: "relationship list"
  embeddings :: "embedding list"
  wall_clock :: timestamp
  uuid_next :: nat

datatype error =
    SqliteConstraint string
  | EmbedderFailure string
  | Error string
  | TypeError string

text \<open>
  What lies outside the repository: the stream of identifiers \<open>randomUUID()\<close> yields, the
  embedding model (which may fail), the regular-expression engine, given the
  source of a pattern compiled with flag \<open>i\<close> and the text it is tested on, and the
  printing of numbers by \<open>toFixed\<close> and in template strings.
\<close>

record env =
  uuid_src :: "nat \<Rightarrow> ident"
  embedder :: "string \<Rightarrow> error + vec"
  regexp_test_i :: "string \<Rightarrow> string \<Rightarrow> bool"
  number_toFixed :: "rat \<Rightarrow> nat \<Rightarrow> string"
  number_toString :: "rat \<Rightarrow> string"

text \<open>An operation that may throw returns the state it had reached when it threw.\<close>

datatype 'a outcome = Ok 'a state | Raise error state

text \<open>JavaScript truthiness of an optional string: \<open>undefined\<close> and \<open>''\<close> are falsy.\<close>

fun truthy :: "string option \<Rightarrow> bool" where
  "truthy None = False"
| "truthy (Some s) = (s \<noteq> [])"

section \<open>Schema versioning (schema.ts)\<close>

text \<open>
  The part of the database file \<open>initializeSchema\<close> looks at: which tables exist, and the
  row of the table \<open>schema_version\<close>, if it has one. The only INSERT into that table
  runs when it is empty, so it never holds more than one row.
\<close>

record schema_state =
  tables :: "string set"
  version_row :: "int option"

definition SCHEMA_VERSION :: int where
  "SCHEMA_VERSION = 2"

definition exec_SCHEMA_V1_SQL :: "schema_state \<Rightarrow> schema_state" where
  "exec_SCHEMA_V1_SQL d =
     d\<lparr>tables := tables d \<union> {''schema_version'', ''entities'', ''observations''}\<rparr>"

definition exec_SCHEMA_V2_SQL :: "schema_state \<Rightarrow> schema_state" where
  "exec_SCHEMA_V2_SQL d = d\<lparr>tables := tables d \<union> {''embeddings'', ''relationships''}\<rparr>"

definition initializeSchema :: "schema_state \<Rightarrow> error + schema_state" where
  "initializeSchema d0 =
     (let d = exec_SCHEMA_V1_SQL d0 in
      case version_row d of
        None \<Rightarrow> Inr ((exec_SCHEMA_V2_SQL d)\<lparr>version_row := Some SCHEMA_VERSION\<rparr>)
      | Some version \<Rightarrow>
          if version < 2
          then Inr ((exec_SCHEMA_V2_SQL d)\<lparr>version_row := Some SCHEMA_VERSION\<rparr>)
          else Inr d)"

definition getSchemaVersion :: "schema_state \<Rightarrow> int" where
  "getSchemaVersion d = (case version_row d of None \<Rightarrow> 0 | Some version \<Rightarrow> version)"

section \<open>Repositories\<close>

subsection \<open>Entities (entities.ts)\<close>

definition findEntityById :: "state \<Rightarrow> ident \<Rightarrow> entity option" where
  "findEntityById s i = find (\<lambda>e. ent_id e = i) (entities s)"

definition findEntityByName :: "state \<Rightarrow> string \<Rightarrow> entity option" where
  "findEntityByName s name = find (\<lambda>e. ent_name e = name) (entities s)"

text \<open>
  Deleting rows of a table with \<open>ON DELETE CASCADE\<close> children deletes the children too
  (\<open>foreign_keys = ON\<close>); \<open>changes\<close> counts the rows of the statement's own table.
\<close>

definition deleteEntity :: "state \<Rightarrow> ident \<Rightarrow> bool \<times> state" where
  "deleteEntity s i =
     (let gone = map obs_id (filter (\<lambda>ob. obs_entity_id ob = i) (observations s)) in
      (filter (\<lambda>e. ent_id e = i) (entities s) \<noteq> [],
       s\<lparr>entities := filter (\<lambda>e. ent_id e \<noteq> i) (entities s),
         observations := filter (\<lambda>ob. obs_entity_id ob \<noteq> i) (observations s),
         embeddings := filter (\<lambda>m. emb_entity_id m \<noteq> i \<and> emb_observation_id m \<notin> set gone)
                         (embeddings s),
         relationships := filter (\<lambda>r. rel_from_entity r \<noteq> i \<and> rel_to_entity r \<noteq> i)
                            (relationships s)\<rparr>))"

subsection \<open>Observations (observations.ts)\<close>

definition deleteObservationsByEntity :: "state \<Rightarrow> ident \<Rightarrow> nat \<times> state" where
  "deleteObservationsByEntity s entityId =
     (let gone = map obs_id (filter (\<lambda>ob. obs_entity_id ob = entityId) (observations s)) in
      (length gone,
       s\<lparr>observations := filter (\<lambda>ob. obs_entity_id ob \<noteq> entityId) (observations s),
         embeddings := filter (\<lambda>m. emb_observation_id m \<notin> set gone) (embeddings s)\<rparr>))"

definition deleteObservation :: "state \<Rightarrow> ident \<Rightarrow> bool \<times> state" where
  "deleteObservation s i =
     (filter (\<lambda>ob. obs_id ob = i) (observations s) \<noteq> [],
      s\<lparr>observations := filter (\<lambda>ob. obs_id ob \<noteq> i) (observations s),
        embeddings := filter (\<lambda>m. emb_observation_id m \<noteq> i) (embeddings s)\<rparr>)"

subsection \<open>Relationships (relationships.ts)\<close>

definition deleteRelationshipsByEntity :: "state \<Rightarrow> ident \<Rightarrow> nat \<times> state" where
  "deleteRelationshipsByEntity s entityId =
     (length (filter (\<lambda>r. rel_from_entity r = entityId \<or> rel_to_entity r = entityId)
                (relationships s)),
      s\<lparr>relationships :=
          filter (\<lambda>r. \<not> (rel_from_entity r = entityId \<or> rel_to_entity r = entityId))
            (relationships s)\<rparr>)"

subsection \<open>Embeddings (embedder.ts)\<close>

definition deleteEmbedding :: "state \<Rightarrow> ident \<Rightarrow> bool \<times> state" where
  "deleteEmbedding s observationId =
     (filter (\<lambda>m. emb_observation_id m = observationId) (embeddings s) \<noteq> [],
      s\<lparr>embeddings := filter (\<lambda>m. emb_observation_id m \<noteq> observationId) (embeddings s)\<rparr>)"

definition deleteEmbeddingsByEntity :: "state \<Rightarrow> ident \<Rightarrow> nat \<times> state" where
  "deleteEmbeddingsByEntity s entityId =
     (length (filter (\<lambda>m. emb_entity_id m = entityId) (embeddings s)),
      s\<lparr>embeddings := filter (\<lambda>m. emb_entity_id m \<noteq> entityId) (embeddings s)\<rparr>)"

section \<open>forget (forget.ts)\<close>

record forget_input =
  fi_entity :: "string option"
  fi_observation_id :: "string option"

record deleted_counts =
  del_observations :: nat
  del_embeddings :: nat
  del_relationships :: nat
  del_entity :: bool

record forget_result =
  fr_success :: bool
  fr_message :: string
  fr_deleted :: deleted_counts

definition no_deletions :: deleted_counts where
  "no_deletions =
     \<lparr>del_observations = 0, del_embeddings = 0, del_relationships = 0, del_entity = False\<rparr>"

definition forget :: "state \<Rightarrow> forget_input \<Rightarrow> forget_result \<times> state" where
  "forget s input =
     (if \<not> truthy (fi_entity input) \<and> \<not> truthy (fi_observation_id input) then
        (\<lparr>fr_success = False,
          fr_message = ''Either entity name or observation_id is required.'',
          fr_deleted = no_deletions\<rparr>, s)
      else if truthy (fi_observation_id input) then
        (let oid = the (fi_observation_id input);
             (embDeleted, s1) = deleteEmbedding s oid;
             (obsDeleted, s2) = deleteObservation s1 oid
         in (\<lparr>fr_success = obsDeleted,
              fr_message = (if obsDeleted then ''Deleted observation '' @ oid @ ''.''
                            else ''Observation '' @ oid @ '' not found.''),
              fr_deleted = \<lparr>del_observations = (if obsDeleted then 1 else 0),
                             del_embeddings = (if embDeleted then 1 else 0),
                             del_relationships = 0, del_entity = False\<rparr>\<rparr>, s2))
      else
        (let name = the (fi_entity input) in
         case findEntityByName s name of
           None \<Rightarrow>
             (\<lparr>fr_success = False,
               fr_message = ''Entity \"'' @ name @ ''\" not found.'',
               fr_deleted = no_deletions\<rparr>, s)
         | Some entity \<Rightarrow>
             (let (embCount, s1) = deleteEmbeddingsByEntity s (ent_id entity);
                  (obsCount, s2) = deleteObservationsByEntity s1 (ent_id entity);
                  (relCount, s3) = deleteRelationshipsByEntity s2 (ent_id entity);
                  (entityDeleted, s4) = deleteEntity s3 (ent_id entity)
              in (\<lparr>fr_success = True,
                   fr_message = ''Forgot entity \"'' @ name @ ''\" and all associated data.'',
                   fr_deleted = \<lparr>del_observations = obsCount, del_embeddings = embCount,
                                  del_relationships = relCount,
                                  del_entity = entityDeleted\<rparr>\<rparr>, s4))))"

section \<open>Repositories, continued\<close>

subsection \<open>Identifiers\<close>

definition randomUUID :: "env \<Rightarrow> state \<Rightarrow> ident \<times> state" where
  "randomUUID ev s = (uuid_src ev (uuid_next s), s\<lparr>uuid_next := Suc (uuid_next s)\<rparr>)"

subsection \<open>Entities, continued\<close>

text \<open>
  An INSERT whose primary key is already in the table, or whose foreign key has no
  parent row, throws; no statement of the tools runs inside a transaction, so what was
  written before stays written.
\<close>

definition findOrCreateEntity ::
  "env \<Rightarrow> state \<Rightarrow> string \<Rightarrow> string option \<Rightarrow> entity outcome" where
  "findOrCreateEntity ev s name type =
     (case findEntityByName s name of
        Some existing \<Rightarrow> Ok existing s
      | None \<Rightarrow>
          (let (i, s1) = randomUUID ev s in
           if i \<in> set (map ent_id (entities s1))
           then Raise (SqliteConstraint ''UNIQUE constraint failed: entities.id'') s1
           else
             (let s2 = s1\<lparr>entities := entities s1 @
                         [\<lparr>ent_id = i, ent_name = name, ent_type = type,
                           ent_created_at = wall_clock s1, ent_updated_at = wall_clock s1\<rparr>]\<rparr>
              in case findEntityById s2 i of
                   Some e \<Rightarrow> Ok e s2
                 | None \<Rightarrow> Raise (TypeError ''entity is undefined'') s2)))"

text \<open>\<open>ORDER BY key DESC\<close>: rows with the larger key first, rows of equal key in scan order.\<close>

definition order_by_desc :: "('a \<Rightarrow> 'k::linorder) \<Rightarrow> 'a list \<Rightarrow> 'a list" where
  "order_by_desc key rows = rev (sort_key key (rev rows))"

definition listEntities :: "state \<Rightarrow> string option \<Rightarrow> nat \<Rightarrow> entity list" where
  "listEntities s type limit =
     (if truthy type
      then take limit (order_by_desc ent_updated_at
                         (filter (\<lambda>e. ent_type e = type) (entities s)))
      else take limit (order_by_desc ent_updated_at (entities s)))"

definition updateEntityTimestamp :: "state \<Rightarrow> ident \<Rightarrow> state" where
  "updateEntityTimestamp s i =
     s\<lparr>entities := map (\<lambda>e. if ent_id e = i then e\<lparr>ent_updated_at := wall_clock s\<rparr> else e)
                      (entities s)\<rparr>"

subsection \<open>Observations, continued\<close>

definition createObservation ::
  "env \<Rightarrow> state \<Rightarrow> ident \<Rightarrow> string \<Rightarrow> string option \<Rightarrow> observation outcome" where
  "createObservation ev s entityId content source =
     (let (i, s1) = randomUUID ev s in
      if i \<in> set (map obs_id (observations s1))
      then Raise (SqliteConstraint ''UNIQUE constraint failed: observations.id'') s1
      else if entityId \<notin> set (map ent_id (entities s1))
      then Raise (SqliteConstraint ''FOREIGN KEY constraint failed'') s1
      else
        (let s2 = s1\<lparr>observations := observations s1 @
                    [\<lparr>obs_id = i, obs_entity_id = entityId, obs_content = content,
                      obs_source = source, obs_created_at = wall_clock s1\<rparr>]\<rparr>;
             s3 = updateEntityTimestamp s2 entityId
         in case find (\<lambda>ob. obs_id ob = i) (observations s3) of
              Some ob \<Rightarrow> Ok ob s3
            | None \<Rightarrow> Raise (TypeError ''observation is undefined'') s3))"

text \<open>
  SQLite's LIKE: \<open>%\<close> matches any run of characters, \<open>_\<close> any one character, and the
  letters A to Z match without regard to case.
\<close>

definition ascii_lower :: "char \<Rightarrow> char" where
  "ascii_lower c =
     (if CHR ''A'' \<le> c \<and> c \<le> CHR ''Z'' then char_of (of_char c + (32::nat)) else c)"

fun sql_like :: "string \<Rightarrow> string \<Rightarrow> bool" where
  "sql_like [] t = (t = [])"
| "sql_like (p # ps) [] = (p = CHR ''%'' \<and> sql_like ps [])"
| "sql_like (p # ps) (c # cs) =
     (if p = CHR ''%'' then sql_like ps (c # cs) \<or> sql_like (p # ps) cs
      else if p = CHR ''_'' then sql_like ps cs
      else ascii_lower p = ascii_lower c \<and> sql_like ps cs)"

record observation_with_entity =
  owe_id :: ident
  owe_entity_id :: ident
  owe_content :: string
  owe_source :: "string option"
  owe_created_at :: timestamp
  owe_entity_name :: string
  owe_entity_type :: "string option"

record search_options =
  so_query :: string
  so_limit :: nat
  so_type :: "string option"
  so_since :: "string option"

definition searchObservations :: "state \<Rightarrow> search_options \<Rightarrow> observation_with_entity list" where
  "searchObservations s options =
     (let limit = min (so_limit options) 50;
          searchTerm = ''%'' @ so_query options @ ''%'';
          rows = [\<lparr>owe_id = obs_id ob, owe_entity_id = obs_entity_id ob,
                   owe_content = obs_content ob, owe_source = obs_source ob,
                   owe_created_at = obs_created_at ob,
                   owe_entity_name = ent_name e, owe_entity_type = ent_type e\<rparr>.
                  ob \<leftarrow> observations s, e \<leftarrow> entities s, obs_entity_id ob = ent_id e,
                  sql_like searchTerm (obs_content ob) \<or> sql_like searchTerm (ent_name e),
                  truthy (so_type options) \<longrightarrow> ent_type e = so_type options,
                  truthy (so_since options) \<longrightarrow> the (so_since options) \<le> obs_created_at ob]
      in take limit (order_by_desc owe_created_at rows))"

text \<open>
  \<open>getObservationsByIds\<close>: the rows whose id is requested, keyed by id (a later row
  of the same id would replace an earlier one in the Map), then read in the order of
  the request, ids without a row dropped.
\<close>

definition getObservationsByIds :: "state \<Rightarrow> ident list \<Rightarrow> observation list" where
  "getObservationsByIds s ids =
     (if ids = [] then []
      else
        (let rows = filter (\<lambda>ob. obs_id ob \<in> set ids) (observations s);
             byId = (\<lambda>i. find (\<lambda>ob. obs_id ob = i) (rev rows))
         in List.map_filter byId ids))"

subsection \<open>Relationships, continued\<close>

definition createRelationship ::
  "env \<Rightarrow> state \<Rightarrow> ident \<Rightarrow> ident \<Rightarrow> string \<Rightarrow> relationship outcome" where
  "createRelationship ev s fromEntityId toEntityId relationType =
     (let (i, s1) = randomUUID ev s in
      if i \<in> set (map rel_id (relationships s1))
      then Raise (SqliteConstraint ''UNIQUE constraint failed: relationships.id'') s1
      else if fromEntityId \<notin> set (map ent_id (entities s1))
              \<or> toEntityId \<notin> set (map ent_id (entities s1))
      then Raise (SqliteConstraint ''FOREIGN KEY constraint failed'') s1
      else
        (let s2 = s1\<lparr>relationships := relationships s1 @
                    [\<lparr>rel_id = i, rel_from_entity = fromEntityId, rel_to_entity = toEntityId,
                      rel_relation_type = relationType, rel_created_at = wall_clock s1\<rparr>]\<rparr>
         in case find (\<lambda>r. rel_id r = i) (relationships s2) of
              Some r \<Rightarrow> Ok r s2
            | None \<Rightarrow> Raise (TypeError ''relationship is undefined'') s2))"

definition relationshipExists :: "state \<Rightarrow> ident \<Rightarrow> ident \<Rightarrow> bool" where
  "relationshipExists s entityIdA entityIdB =
     (filter (\<lambda>r. (rel_from_entity r = entityIdA \<and> rel_to_entity r = entityIdB)
                 \<or> (rel_from_entity r = entityIdB \<and> rel_to_entity r = entityIdA))
        (relationships s) \<noteq> [])"

subsection \<open>Embeddings, continued\<close>

text \<open>
  A stored vector is the \<open>Float32Array\<close> read back from its blob. Every vector, stored
  or computed by the embedder, has \<open>EMBEDDING_DIM\<close> components, so the dot product
  runs over the components of both.
\<close>

definition EMBEDDING_DIM :: nat where
  "EMBEDDING_DIM = 384"

definition generateEmbedding :: "env \<Rightarrow> string \<Rightarrow> error + vec" where
  "generateEmbedding ev text = embedder ev text"

definition storeEmbedding ::
  "env \<Rightarrow> state \<Rightarrow> ident \<Rightarrow> ident \<Rightarrow> vec \<Rightarrow> string \<Rightarrow> ident outcome" where
  "storeEmbedding ev s entityId observationId vector textContent =
     (let (i, s1) = randomUUID ev s in
      if i \<in> set (map emb_id (embeddings s1))
      then Raise (SqliteConstraint ''UNIQUE constraint failed: embeddings.id'') s1
      else if entityId \<notin> set (map ent_id (entities s1))
              \<or> observationId \<notin> set (map obs_id (observations s1))
      then Raise (SqliteConstraint ''FOREIGN KEY constraint failed'') s1
      else Ok i (s1\<lparr>embeddings := embeddings s1 @
                   [\<lparr>emb_id = i, emb_entity_id = entityId, emb_observation_id = observationId,
                     emb_vector = vector, emb_text_content = textContent,
                     emb_created_at = wall_clock s1\<rparr>]\<rparr>))"

record stored_vector =
  sv_observation_id :: ident
  sv_entity_id :: ident
  sv_entity_name :: string
  sv_entity_type :: "string option"
  sv_content :: string
  sv_source :: "string option"
  sv_created_at :: timestamp
  sv_vector :: vec

definition joined_embeddings :: "state \<Rightarrow> (embedding \<Rightarrow> bool) \<Rightarrow> stored_vector list" where
  "joined_embeddings s keep =
     [\<lparr>sv_observation_id = emb_observation_id m, sv_entity_id = emb_entity_id m,
       sv_entity_name = ent_name e, sv_entity_type = ent_type e,
       sv_content = obs_content ob, sv_source = obs_source ob,
       sv_created_at = obs_created_at ob, sv_vector = emb_vector m\<rparr>.
      m \<leftarrow> embeddings s, keep m,
      ob \<leftarrow> observations s, emb_observation_id m = obs_id ob,
      e \<leftarrow> entities s, emb_entity_id m = ent_id e]"

definition getEmbeddingsByEntity :: "state \<Rightarrow> ident option \<Rightarrow> stored_vector list" where
  "getEmbeddingsByEntity s entityId =
     (if truthy entityId
      then joined_embeddings s (\<lambda>m. emb_entity_id m = the entityId)
      else joined_embeddings s (\<lambda>m. True))"

definition cosineSimilarity :: "vec \<Rightarrow> vec \<Rightarrow> rat" where
  "cosineSimilarity a b = sum_list (map2 (*) a b)"

record semantic_search_result =
  ssr_observation_id :: ident
  ssr_entity_id :: ident
  ssr_entity_name :: string
  ssr_entity_type :: "string option"
  ssr_content :: string
  ssr_source :: "string option"
  ssr_created_at :: timestamp
  ssr_similarity :: rat

definition semanticSearch ::
  "env \<Rightarrow> state \<Rightarrow> string \<Rightarrow> nat \<Rightarrow> string option \<Rightarrow> string option
     \<Rightarrow> error + semantic_search_result list" where
  "semanticSearch ev s query limit type since =
     (case generateEmbedding ev query of
        Inl e \<Rightarrow> Inl e
      | Inr queryVector \<Rightarrow>
          (let rows = filter (\<lambda>row. (truthy type \<longrightarrow> sv_entity_type row = type)
                                  \<and> (truthy since \<longrightarrow> the since \<le> sv_created_at row))
                        (joined_embeddings s (\<lambda>m. True));
               scored = map (\<lambda>row.
                          \<lparr>ssr_observation_id = sv_observation_id row,
                           ssr_entity_id = sv_entity_id row,
                           ssr_entity_name = sv_entity_name row,
                           ssr_entity_type = sv_entity_type row,
                           ssr_content = sv_content row, ssr_source = sv_source row,
                           ssr_created_at = sv_created_at row,
                           ssr_similarity = cosineSimilarity queryVector (sv_vector row)\<rparr>) rows
           in Inr (take limit (order_by_desc ssr_similarity scored))))"

section \<open>Neighbourhood traversal (relationships.ts)\<close>

text \<open>
  What \<open>getRelatedEntities\<close> records for an entity it reaches. The depth bound is a
  count of hops, a natural number.
\<close>

record neighbor =
  nb_depth :: nat
  nb_name :: string
  nb_type :: "string option"

text \<open>
  The rows of the prepared statement for the entity \<open>cur\<close>: for every relationship
  with \<open>cur\<close> at either end, the entity row at the other end.
\<close>

definition related_rows :: "state \<Rightarrow> ident \<Rightarrow> (ident \<times> string \<times> string option) list" where
  "related_rows s cur =
     [(ent_id e, ent_name e, ent_type e).
        r \<leftarrow> relationships s, rel_from_entity r = cur \<or> rel_to_entity r = cur,
        e \<leftarrow> entities s,
        ent_id e = (if rel_from_entity r = cur then rel_to_entity r else rel_from_entity r)]"

text \<open>
  The loop on the queue and the \<open>visited\<close> map. The weight of a queue entry shrinks
  by more than the number of entries one expansion can add, which bounds the loop.
\<close>

function bfs_loop ::
  "state \<Rightarrow> ident \<Rightarrow> nat \<Rightarrow> (ident \<times> nat) list \<Rightarrow> (ident \<rightharpoonup> neighbor)
     \<Rightarrow> (ident \<rightharpoonup> neighbor)" where
  "bfs_loop s entityId maxDepth [] visited = visited"
| "bfs_loop s entityId maxDepth ((cid, depth) # queue) visited =
     (if visited cid \<noteq> None \<or> depth > maxDepth
      then bfs_loop s entityId maxDepth queue visited
      else
        (let visited1 =
               (if cid \<noteq> entityId
                then (case find (\<lambda>e. ent_id e = cid) (entities s) of
                        Some entity \<Rightarrow>
                          visited(cid \<mapsto> \<lparr>nb_depth = depth, nb_name = ent_name entity,
                                           nb_type = ent_type entity\<rparr>)
                      | None \<Rightarrow> visited)
                else visited(cid \<mapsto> \<lparr>nb_depth = 0, nb_name = [], nb_type = None\<rparr>));
             queue1 =
               (if depth < maxDepth
                then queue @ map (\<lambda>r. (fst r, depth + 1))
                               (filter (\<lambda>r. visited1 (fst r) = None) (related_rows s cid))
                else queue)
         in bfs_loop s entityId maxDepth queue1 visited1))"
  by pat_completeness auto
termination
proof (relation "measure (\<lambda>(s, entityId, maxDepth, queue, visited).
          sum_list (map (\<lambda>(c, d). Suc (length (relationships s) * length (entities s))
                                     ^ (Suc maxDepth - d)) queue))")
  show "wf (measure (\<lambda>(s, entityId, maxDepth, queue, visited).
          sum_list (map (\<lambda>(c, d). Suc (length (relationships s) * length (entities s))
                                     ^ (Suc maxDepth - d)) queue)))"
    by simp
next
  fix s :: state and entityId :: ident and maxDepth :: nat and cid :: ident and depth :: nat
    and queue :: "(ident \<times> nat) list" and visited :: "ident \<rightharpoonup> neighbor"
  show "((s, entityId, maxDepth, queue, visited),
         (s, entityId, maxDepth, (cid, depth) # queue, visited))
        \<in> measure (\<lambda>(s, entityId, maxDepth, queue, visited).
          sum_list (map (\<lambda>(c, d). Suc (length (relationships s) * length (entities s))
                                     ^ (Suc maxDepth - d)) queue))"
    by simp
next
  fix s :: state and entityId :: ident and maxDepth :: nat and cid :: ident and depth :: nat
    and queue :: "(ident \<times> nat) list" and visited visited1 :: "ident \<rightharpoonup> neighbor"
    and queue1 :: "(ident \<times> nat) list"
  assume go: "\<not> (visited cid \<noteq> None \<or> maxDepth < depth)"
    and q1: "queue1 =
               (if depth < maxDepth
                then queue @ map (\<lambda>r. (fst r, depth + 1))
                               (filter (\<lambda>r. visited1 (fst r) = None) (related_rows s cid))
                else queue)"
  let ?W = "Suc (length (relationships s) * length (entities s))"
  let ?w = "\<lambda>(c :: ident, d). ?W ^ (Suc maxDepth - d)"
  have inner: "length (concat (map (\<lambda>e. if Q e then [g e] else []) es)) \<le> length es"
    for Q :: "entity \<Rightarrow> bool" and g :: "entity \<Rightarrow> ident \<times> string \<times> string option" and es
    by (induction es) auto
  have outer: "length (concat (map f rs)) \<le> length rs * k"
    if "\<And>r. length (f r) \<le> k"
    for f :: "relationship \<Rightarrow> (ident \<times> string \<times> string option) list" and rs k
    using that by (induction rs) (auto simp: add.commute add_le_mono)
  have bound: "length (related_rows s cid) < ?W"
    unfolding related_rows_def less_Suc_eq_le
    by (rule outer) (auto intro: inner)
  show "((s, entityId, maxDepth, queue1, visited1),
         (s, entityId, maxDepth, (cid, depth) # queue, visited))
        \<in> measure (\<lambda>(s, entityId, maxDepth, queue, visited).
          sum_list (map (\<lambda>(c, d). Suc (length (relationships s) * length (entities s))
                                     ^ (Suc maxDepth - d)) queue))"
  proof (cases "depth < maxDepth")
    case False
    with q1 show ?thesis by simp
  next
    case True
    let ?new = "filter (\<lambda>r. visited1 (fst r) = None) (related_rows s cid)"
    have "length ?new \<le> length (related_rows s cid)"
      by simp
    with bound have n: "length ?new < ?W"
      by (rule le_less_trans [rotated])
    have "sum_list (map ?w (map (\<lambda>r. (fst r, depth + 1)) ?new)) =
          length ?new * ?W ^ (maxDepth - depth)"
      using True by (simp add: comp_def sum_list_triv Suc_diff_Suc)
    also have "\<dots> < ?W * ?W ^ (maxDepth - depth)"
      using n by (intro mult_strict_right_mono) simp_all
    also have "\<dots> = ?W ^ (Suc maxDepth - depth)"
      using True by (simp add: Suc_diff_le)
    finally show ?thesis
      using q1 True by simp
  qed
qed

definition getRelatedEntities :: "state \<Rightarrow> ident \<Rightarrow> nat \<Rightarrow> (ident \<rightharpoonup> neighbor)" where
  "getRelatedEntities s entityId maxDepth =
     (bfs_loop s entityId maxDepth [(entityId, 0)] Map.empty) (entityId := None)"

section \<open>remember (remember.ts)\<close>

definition DEDUP_THRESHOLD :: rat where
  "DEDUP_THRESHOLD = 0.85"

record remember_input =
  ri_content :: string
  ri_entity :: "string option"
  ri_type :: "string option"
  ri_source :: "string option"

record remember_result =
  rr_success :: bool
  rr_entityId :: ident
  rr_entityName :: string
  rr_observationId :: ident
  rr_relationships_created :: "string list"
  rr_message :: string
  rr_deduplicated :: "bool option"
  rr_replaced_observation :: "string option"

text \<open>The dedup loop: \<open>i\<close> is the loop index, \<open>bestMatch\<close> the pair of similarity and index.\<close>

fun dedup_scan ::
  "vec \<Rightarrow> stored_vector list \<Rightarrow> nat \<Rightarrow> (rat \<times> nat) option \<Rightarrow> (rat \<times> nat) option" where
  "dedup_scan vector [] i bestMatch = bestMatch"
| "dedup_scan vector (x # rest) i bestMatch =
     (let sim = cosineSimilarity vector (sv_vector x) in
      if sim \<ge> DEDUP_THRESHOLD
         \<and> (case bestMatch of None \<Rightarrow> True | Some b \<Rightarrow> sim > fst b)
      then dedup_scan vector rest (Suc i) (Some (sim, i))
      else dedup_scan vector rest (Suc i) bestMatch)"

definition SKIP_ENTITIES :: "string set" where
  "SKIP_ENTITIES = {''general''}"

definition MIN_NAME_LENGTH :: nat where
  "MIN_NAME_LENGTH = 3"

definition backslash :: char where
  "backslash = CHR 0x5C"

text \<open>The first replacement: every character that is special in a pattern gets a backslash.\<close>

definition escape_regexp :: "string \<Rightarrow> string" where
  "escape_regexp name =
     concat (map (\<lambda>c. if c \<in> set ''.*+?^${}()|[]'' \<or> c = backslash then [backslash, c] else [c])
               name)"

text \<open>
  The second replacement: every maximal run of hyphens, underscores and white space
  becomes the class that matches such a run. White space is what fits in one byte:
  tab, line feed, vertical tab, form feed, carriage return and space.
\<close>

definition is_separator :: "char \<Rightarrow> bool" where
  "is_separator c =
     (c = CHR ''-'' \<or> c = CHR ''_'' \<or> c = CHR '' '' \<or> c = CHR 0x09 \<or> c = CHR 0x0A
      \<or> c = CHR 0x0B \<or> c = CHR 0x0C \<or> c = CHR 0x0D)"

function replace_separator_runs :: "string \<Rightarrow> string" where
  "replace_separator_runs [] = []"
| "replace_separator_runs (c # cs) =
     (if is_separator c
      then (''[-_'' @ [backslash] @ ''s]+'') @ replace_separator_runs (dropWhile is_separator cs)
      else c # replace_separator_runs cs)"
  by pat_completeness auto
termination
  by (relation "measure length") (auto simp: less_Suc_eq_le length_dropWhile_le)

definition name_pattern :: "string \<Rightarrow> string" where
  "name_pattern name =
     [backslash] @ ''b'' @ replace_separator_runs (escape_regexp name) @ [backslash] @ ''b''"

fun detect_loop ::
  "env \<Rightarrow> entity \<Rightarrow> string \<Rightarrow> entity list \<Rightarrow> state \<Rightarrow> string list \<Rightarrow> string list outcome" where
  "detect_loop ev sourceEntity content [] s created = Ok created s"
| "detect_loop ev sourceEntity content (candidate # rest) s created =
     (if ent_id candidate = ent_id sourceEntity
      then detect_loop ev sourceEntity content rest s created
      else if ent_name candidate \<in> SKIP_ENTITIES
      then detect_loop ev sourceEntity content rest s created
      else if length (ent_name candidate) < MIN_NAME_LENGTH
      then detect_loop ev sourceEntity content rest s created
      else if regexp_test_i ev (name_pattern (ent_name candidate)) content
      then
        (if \<not> relationshipExists s (ent_id sourceEntity) (ent_id candidate)
         then
           (case createRelationship ev s (ent_id sourceEntity) (ent_id candidate) ''relates_to'' of
              Raise e s' \<Rightarrow> Raise e s'
            | Ok r s' \<Rightarrow>
                detect_loop ev sourceEntity content rest s' (created @ [ent_name candidate]))
         else detect_loop ev sourceEntity content rest s created)
      else detect_loop ev sourceEntity content rest s created)"

definition detectAndCreateRelationships ::
  "env \<Rightarrow> state \<Rightarrow> entity \<Rightarrow> string \<Rightarrow> string list outcome" where
  "detectAndCreateRelationships ev s sourceEntity content =
     detect_loop ev sourceEntity content (listEntities s None 500) s []"

text \<open>The tail both non-skipping paths share: create, embed, link.\<close>

definition store_new_observation ::
  "env \<Rightarrow> state \<Rightarrow> entity \<Rightarrow> remember_input \<Rightarrow> vec \<Rightarrow> string \<Rightarrow> string option
     \<Rightarrow> remember_result outcome" where
  "store_new_observation ev s entity input vector message replaced =
     (case createObservation ev s (ent_id entity) (ri_content input) (ri_source input) of
        Raise e s' \<Rightarrow> Raise e s'
      | Ok observation s1 \<Rightarrow>
          (case storeEmbedding ev s1 (ent_id entity) (obs_id observation) vector
                  (ri_content input) of
             Raise e s' \<Rightarrow> Raise e s'
           | Ok embeddingId s2 \<Rightarrow>
               (case detectAndCreateRelationships ev s2 entity (ri_content input) of
                  Raise e s' \<Rightarrow> Raise e s'
                | Ok relationshipsCreated s3 \<Rightarrow>
                    Ok \<lparr>rr_success = True, rr_entityId = ent_id entity,
                        rr_entityName = ent_name entity,
                        rr_observationId = obs_id observation,
                        rr_relationships_created = relationshipsCreated,
                        rr_message = message,
                        rr_deduplicated = None,
                        rr_replaced_observation = replaced\<rparr> s3)))"

definition remember :: "env \<Rightarrow> state \<Rightarrow> remember_input \<Rightarrow> remember_result outcome" where
  "remember ev s input =
     (let entityName = (if truthy (ri_entity input) then the (ri_entity input) else ''general'') in
      case findOrCreateEntity ev s entityName (ri_type input) of
        Raise e s' \<Rightarrow> Raise e s'
      | Ok entity s1 \<Rightarrow>
          (case generateEmbedding ev (ri_content input) of
             Inl e \<Rightarrow> Raise e s1
           | Inr vector \<Rightarrow>
               (let existing = getEmbeddingsByEntity s1 (Some (ent_id entity)) in
                case dedup_scan vector existing 0 None of
                  Some (similarity, index) \<Rightarrow>
                    (let match = existing ! index in
                     if length (sv_content match) \<ge> length (ri_content input)
                     then
                       Ok \<lparr>rr_success = True, rr_entityId = ent_id entity,
                           rr_entityName = ent_name entity,
                           rr_observationId = sv_observation_id match,
                           rr_relationships_created = [],
                           rr_message =
                             ''Deduplicated: similar observation already exists for \"''
                             @ ent_name entity @ ''\" (similarity: ''
                             @ number_toFixed ev similarity 3 @ '')'',
                           rr_deduplicated = Some True,
                           rr_replaced_observation = None\<rparr> s1
                     else
                       (let replacedContent = sv_content match;
                            s2 = snd (deleteEmbedding s1 (sv_observation_id match));
                            s3 = snd (deleteObservation s2 (sv_observation_id match))
                        in store_new_observation ev s3 entity input vector
                             (''Replaced shorter duplicate for \"'' @ ent_name entity
                              @ ''\" (similarity: '' @ number_toFixed ev similarity 3 @ '')'')
                             (Some replacedContent)))
                | None \<Rightarrow>
                    store_new_observation ev s1 entity input vector
                      (''Remembered: \"'' @ take 50 (ri_content input)
                       @ (if length (ri_content input) > 50 then ''...'' else [])
                       @ ''\" for entity \"'' @ ent_name entity @ ''\"'')
                      None)))"

section \<open>recall (recall.ts)\<close>

definition SIMILARITY_THRESHOLD :: rat where
  "SIMILARITY_THRESHOLD = 0.15"

record recall_input =
  rc_query :: string
  rc_limit :: nat
  rc_type :: "string option"
  rc_since :: "string option"

record memory_result =
  mr_observation_id :: ident
  mr_entity :: string
  mr_type :: "string option"
  mr_content :: string
  mr_source :: "string option"
  mr_remembered_at :: timestamp
  mr_similarity :: "rat option"

record recall_result =
  rcr_success :: bool
  rcr_count :: nat
  rcr_memories :: "memory_result list"

text \<open>\<open>Math.round\<close> rounds to the nearest integer, a half upwards.\<close>

definition Math_round :: "rat \<Rightarrow> rat" where
  "Math_round x = of_int \<lfloor>x + 1 / 2\<rfloor>"

definition semantic_memory :: "semantic_search_result \<Rightarrow> memory_result" where
  "semantic_memory r =
     \<lparr>mr_observation_id = ssr_observation_id r, mr_entity = ssr_entity_name r,
      mr_type = ssr_entity_type r, mr_content = ssr_content r, mr_source = ssr_source r,
      mr_remembered_at = ssr_created_at r,
      mr_similarity = Some (Math_round (ssr_similarity r * 1000) / 1000)\<rparr>"

definition formatObservation :: "observation_with_entity \<Rightarrow> memory_result" where
  "formatObservation ob =
     \<lparr>mr_observation_id = owe_id ob, mr_entity = owe_entity_name ob,
      mr_type = owe_entity_type ob, mr_content = owe_content ob, mr_source = owe_source ob,
      mr_remembered_at = owe_created_at ob, mr_similarity = None\<rparr>"

text \<open>The two loops of \<open>recall\<close>, on the pair of \<open>seen\<close> and \<open>memories\<close>.\<close>

fun semantic_loop ::
  "semantic_search_result list \<Rightarrow> ident set \<times> memory_result list
     \<Rightarrow> ident set \<times> memory_result list" where
  "semantic_loop [] (seen, memories) = (seen, memories)"
| "semantic_loop (r # rest) (seen, memories) =
     (if ssr_similarity r < SIMILARITY_THRESHOLD then semantic_loop rest (seen, memories)
      else if ssr_observation_id r \<notin> seen
      then semantic_loop rest
             (insert (ssr_observation_id r) seen, memories @ [semantic_memory r])
      else semantic_loop rest (seen, memories))"

fun keyword_loop ::
  "observation_with_entity list \<Rightarrow> ident set \<times> memory_result list
     \<Rightarrow> ident set \<times> memory_result list" where
  "keyword_loop [] (seen, memories) = (seen, memories)"
| "keyword_loop (ob # rest) (seen, memories) =
     (if owe_id ob \<notin> seen
      then keyword_loop rest (insert (owe_id ob) seen, memories @ [formatObservation ob])
      else keyword_loop rest (seen, memories))"

definition recall :: "env \<Rightarrow> state \<Rightarrow> recall_input \<Rightarrow> recall_result" where
  "recall ev s input =
     (let semanticResults =
            (case semanticSearch ev s (rc_query input) (rc_limit input) (rc_type input)
                    (rc_since input) of
               Inl e \<Rightarrow> []
             | Inr results \<Rightarrow> results);
          keywordResults =
            searchObservations s
              \<lparr>so_query = rc_query input, so_limit = rc_limit input,
               so_type = rc_type input, so_since = rc_since input\<rparr>;
          (seen, memories) = keyword_loop keywordResults (semantic_loop semanticResults ({}, []));
          limited = take (rc_limit input) memories
      in \<lparr>rcr_success = True, rcr_count = length limited, rcr_memories = limited\<rparr>)"

section \<open>merge (merge.ts)\<close>

record merge_input =
  mi_observation_ids :: "ident list"
  mi_content :: string

record merge_result =
  mg_success :: bool
  mg_new_observation_id :: ident
  mg_merged_count :: nat
  mg_entity_name :: string
  mg_message :: string

fun string_of_nat :: "nat \<Rightarrow> string" where
  "string_of_nat n =
     (if n < 10 then [char_of (48 + n)]
      else string_of_nat (n div 10) @ [char_of (48 + n mod 10)])"

fun join :: "string \<Rightarrow> string list \<Rightarrow> string" where
  "join sep [] = []"
| "join sep [x] = x"
| "join sep (x # y # rest) = x @ sep @ join sep (y # rest)"

text \<open>The loop that deletes the originals, embedding first.\<close>

fun delete_originals :: "observation list \<Rightarrow> state \<Rightarrow> state" where
  "delete_originals [] s = s"
| "delete_originals (ob # rest) s =
     delete_originals rest
       (snd (deleteObservation (snd (deleteEmbedding s (obs_id ob))) (obs_id ob)))"

definition merge :: "env \<Rightarrow> state \<Rightarrow> merge_input \<Rightarrow> merge_result outcome" where
  "merge ev s input =
     (let observations = getObservationsByIds s (mi_observation_ids input);
          foundIds = set (map obs_id observations);
          missingIds = filter (\<lambda>i. i \<notin> foundIds) (mi_observation_ids input)
      in
      if length missingIds > 0
      then Raise (Error (''Observations not found: '' @ join '', '' missingIds)) s
      else if card (set (map obs_entity_id observations)) > 1
      then Raise (Error (''All observations must belong to the same entity. ''
                         @ ''Found observations from multiple entities.'')) s
      else
        (case observations of
           [] \<Rightarrow> Raise (TypeError ''Cannot read properties of undefined'') s
         | first # others \<Rightarrow>
             (let entityId = obs_entity_id first in
              case findEntityById s entityId of
                None \<Rightarrow> Raise (Error (''Entity '' @ entityId @ '' not found.'')) s
              | Some entity \<Rightarrow>
                  (let source = (case find (\<lambda>ob. obs_source ob \<noteq> None) observations of
                                   None \<Rightarrow> None
                                 | Some ob \<Rightarrow> obs_source ob) in
                   case generateEmbedding ev (mi_content input) of
                     Inl e \<Rightarrow> Raise e s
                   | Inr vector \<Rightarrow>
                       (case createObservation ev s entityId (mi_content input) source of
                          Raise e s' \<Rightarrow> Raise e s'
                        | Ok newObservation s1 \<Rightarrow>
                            (case storeEmbedding ev s1 entityId (obs_id newObservation) vector
                                    (mi_content input) of
                               Raise e s' \<Rightarrow> Raise e s'
                             | Ok embeddingId s2 \<Rightarrow>
                                 Ok \<lparr>mg_success = True,
                                     mg_new_observation_id = obs_id newObservation,
                                     mg_merged_count = length observations,
                                     mg_entity_name = ent_name entity,
                                     mg_message =
                                       ''Merged '' @ string_of_nat (length observations)
                                       @ '' observations into one for \"'' @ ent_name entity
                                       @ ''\".''\<rparr>
                                    (delete_originals observations s2)))))))"

section \<open>consolidate (consolidate.ts)\<close>

text \<open>
  The class \<open>UnionFind\<close>: the arrays \<open>parent\<close> and \<open>rank\<close>. \<open>find\<close> compresses the path
  it walks, so it returns the structure along with the root; its recursion is not
  structural, so a call that does not return has the value \<open>None\<close>. \<open>union\<close> links the
  root of lower rank under the other and, on equal ranks, the second under the first,
  whose rank grows by one.
\<close>

record union_find =
  uf_parent :: "nat list"
  uf_rank :: "nat list"

definition uf_init :: "nat \<Rightarrow> union_find" where
  "uf_init n = \<lparr>uf_parent = [0..<n], uf_rank = replicate n 0\<rparr>"

partial_function (option) uf_find :: "union_find \<Rightarrow> nat \<Rightarrow> (nat \<times> union_find) option" where
  "uf_find u x =
     (if uf_parent u ! x \<noteq> x
      then Option.bind (uf_find u (uf_parent u ! x))
             (\<lambda>(root, u'). Some (root, u'\<lparr>uf_parent := (uf_parent u')[x := root]\<rparr>))
      else Some (uf_parent u ! x, u))"

definition uf_union :: "union_find \<Rightarrow> nat \<Rightarrow> nat \<Rightarrow> union_find option" where
  "uf_union u x y =
     Option.bind (uf_find u x) (\<lambda>(rx, u1).
     Option.bind (uf_find u1 y) (\<lambda>(ry, u2).
       if rx = ry then Some u2
       else if uf_rank u2 ! rx < uf_rank u2 ! ry
       then Some (u2\<lparr>uf_parent := (uf_parent u2)[rx := ry]\<rparr>)
       else if uf_rank u2 ! rx > uf_rank u2 ! ry
       then Some (u2\<lparr>uf_parent := (uf_parent u2)[ry := rx]\<rparr>)
       else Some (u2\<lparr>uf_parent := (uf_parent u2)[ry := rx],
                     uf_rank := (uf_rank u2)[rx := uf_rank u2 ! rx + 1]\<rparr>)))"

record consolidate_input =
  ci_entity :: "string option"
  ci_threshold :: "rat option"

record cluster_observation =
  co_observation_id :: ident
  co_entity :: string
  co_type :: "string option"
  co_content :: string
  co_source :: "string option"
  co_remembered_at :: timestamp

record cluster =
  cl_observations :: "cluster_observation list"
  cl_avg_similarity :: rat

record consolidate_result =
  cr_success :: bool
  cr_total_observations :: nat
  cr_clusters :: "cluster list"
  cr_message :: string

definition toClusterObservation :: "stored_vector \<Rightarrow> cluster_observation" where
  "toClusterObservation v =
     \<lparr>co_observation_id = sv_observation_id v, co_entity = sv_entity_name v,
      co_type = sv_entity_type v, co_content = sv_content v, co_source = sv_source v,
      co_remembered_at = sv_created_at v\<rparr>"

text \<open>
  The pairs \<open>(i, j)\<close> with \<open>i < j\<close> in the order the two nested loops visit them, and
  the first pair of loops: every pair at or above the threshold is united and its
  similarity stored. The map \<open>similarities\<close> is keyed by the text \<open>i:j\<close>, which names
  the pair; here the pair itself is the key. The dot product is the function
  \<open>cosineSimilarity\<close> above: consolidate.ts carries its own copy of it.
\<close>

definition index_pairs :: "nat \<Rightarrow> (nat \<times> nat) list" where
  "index_pairs n = [(i, j). i \<leftarrow> [0..<n], j \<leftarrow> [Suc i..<n]]"

fun union_loop ::
  "stored_vector list \<Rightarrow> rat \<Rightarrow> (nat \<times> nat) list
     \<Rightarrow> union_find \<times> (nat \<times> nat \<rightharpoonup> rat) \<Rightarrow> (union_find \<times> (nat \<times> nat \<rightharpoonup> rat)) option" where
  "union_loop vectors threshold [] (uf, similarities) = Some (uf, similarities)"
| "union_loop vectors threshold ((i, j) # rest) (uf, similarities) =
     (let sim = cosineSimilarity (sv_vector (vectors ! i)) (sv_vector (vectors ! j)) in
      if sim \<ge> threshold
      then Option.bind (uf_union uf i j)
             (\<lambda>uf'. union_loop vectors threshold rest (uf', similarities((i, j) \<mapsto> sim)))
      else union_loop vectors threshold rest (uf, similarities))"

text \<open>
  The loop that groups the indices by their root. A JavaScript \<open>Map\<close> keeps its keys
  in insertion order, so the groups are a list of pairs of a root and its members.
\<close>

fun group_loop ::
  "nat list \<Rightarrow> union_find \<times> (nat \<times> nat list) list
     \<Rightarrow> (union_find \<times> (nat \<times> nat list) list) option" where
  "group_loop [] (uf, groups) = Some (uf, groups)"
| "group_loop (i # rest) (uf, groups) =
     Option.bind (uf_find uf i) (\<lambda>(root, uf').
       group_loop rest
         (uf', if root \<notin> set (map fst groups) then groups @ [(root, [i])]
               else map (\<lambda>(k, members). if k = root then (k, members @ [i]) else (k, members))
                      groups))"

text \<open>
  The average of a group: the similarity of each pair of members, the stored one if
  the pair was stored and the dot product otherwise, summed and counted by two nested
  loops over the member list.
\<close>

definition pair_similarity ::
  "stored_vector list \<Rightarrow> (nat \<times> nat \<rightharpoonup> rat) \<Rightarrow> nat \<Rightarrow> nat \<Rightarrow> rat" where
  "pair_similarity vectors similarities a b =
     (let key = (if a < b then (a, b) else (b, a)) in
      case similarities key of
        Some sim \<Rightarrow> sim
      | None \<Rightarrow> cosineSimilarity (sv_vector (vectors ! a)) (sv_vector (vectors ! b)))"

fun sum_pairs ::
  "stored_vector list \<Rightarrow> (nat \<times> nat \<rightharpoonup> rat) \<Rightarrow> nat list \<Rightarrow> rat \<times> nat \<Rightarrow> rat \<times> nat" where
  "sum_pairs vectors similarities [] (simSum, simCount) = (simSum, simCount)"
| "sum_pairs vectors similarities (a # rest) (simSum, simCount) =
     sum_pairs vectors similarities rest
       (fold (\<lambda>b (total, count). (total + pair_similarity vectors similarities a b, count + 1))
          rest (simSum, simCount))"

definition build_cluster ::
  "stored_vector list \<Rightarrow> (nat \<times> nat \<rightharpoonup> rat) \<Rightarrow> nat list \<Rightarrow> cluster" where
  "build_cluster vectors similarities members =
     (let (simSum, simCount) = sum_pairs vectors similarities members (0, 0) in
      \<lparr>cl_observations = map (\<lambda>idx. toClusterObservation (vectors ! idx)) members,
       cl_avg_similarity =
         (if simCount > 0 then Math_round ((simSum / of_nat simCount) * 1000) / 1000 else 0)\<rparr>)"

text \<open>
  The dash of the message, as the bytes of its UTF-8 encoding.
\<close>

definition em_dash :: string where
  "em_dash = [CHR 0xE2, CHR 0x80, CHR 0x94]"

text \<open>
  The threshold of a call (\<open>input.threshold ?? 0.8\<close>) and the entity it names:
  \<open>Inl\<close> the name when an entity is named and not found, otherwise \<open>Inr\<close> the id that
  \<open>getEmbeddingsByEntity\<close> receives, which is absent when no entity is named.
\<close>

definition consolidate_threshold :: "consolidate_input \<Rightarrow> rat" where
  "consolidate_threshold input = (case ci_threshold input of None \<Rightarrow> 0.8 | Some t \<Rightarrow> t)"

definition consolidate_scope :: "state \<Rightarrow> consolidate_input \<Rightarrow> string + ident option" where
  "consolidate_scope s input =
     (if truthy (ci_entity input)
      then (case findEntityByName s (the (ci_entity input)) of
              None \<Rightarrow> Inl (the (ci_entity input))
            | Some entity \<Rightarrow> Inr (Some (ent_id entity)))
      else Inr None)"

text \<open>
  \<open>Array.prototype.sort\<close> is stable, as \<open>order_by_desc\<close> is. The threshold in the
  message is printed by \<open>number_toString\<close>.
\<close>

definition consolidate ::
  "env \<Rightarrow> state \<Rightarrow> consolidate_input \<Rightarrow> consolidate_result option" where
  "consolidate ev s input =
     (let threshold = consolidate_threshold input
      in case consolidate_scope s input of
        Inl name \<Rightarrow>
          Some \<lparr>cr_success = False, cr_total_observations = 0, cr_clusters = [],
                cr_message = ''Entity \"'' @ name @ ''\" not found.''\<rparr>
      | Inr entityId \<Rightarrow>
          (let vectors = getEmbeddingsByEntity s entityId in
           if length vectors < 2
           then Some \<lparr>cr_success = True, cr_total_observations = length vectors,
                      cr_clusters = [],
                      cr_message = (if length vectors = 0 then ''No observations found.''
                                    else ''Only one observation '' @ em_dash @ '' nothing to consolidate.'')\<rparr>
           else
             Option.bind
               (union_loop vectors threshold (index_pairs (length vectors))
                  (uf_init (length vectors), Map.empty))
               (\<lambda>(uf, similarities).
             Option.bind (group_loop [0..<length vectors] (uf, []))
               (\<lambda>(uf', groups).
                  (let clusters =
                         order_by_desc (\<lambda>c. length (cl_observations c))
                           (map (build_cluster vectors similarities)
                              (filter (\<lambda>members. \<not> length members < 2) (map snd groups)))
                   in Some \<lparr>cr_success = True, cr_total_observations = length vectors,
                            cr_clusters = clusters,
                            cr_message =
                              (if length clusters = 0
                               then ''Scanned '' @ string_of_nat (length vectors)
                                    @ '' observations '' @ em_dash @ '' no clusters found above threshold ''
                                    @ number_toString ev threshold @ ''.''
                               else ''Found '' @ string_of_nat (length clusters)
                                    @ '' cluster(s) across '' @ string_of_nat (length vectors)
                                    @ '' observations. Review each cluster and use ''
                                    @ ''remember + forget to merge.'')\<rparr>)))))"

section \<open>recall: the fused list the specification describes\<close>

text \<open>
  Deduplication in which the first occurrence of an observation id wins: the head stays,
  and every later entry of the same id goes.
\<close>

function dedup_first :: "memory_result list \<Rightarrow> memory_result list" where
  "dedup_first [] = []"
| "dedup_first (m # ms) =
     m # dedup_first (filter (\<lambda>x. mr_observation_id x \<noteq> mr_observation_id m) ms)"
  by pat_completeness auto
termination
  by (relation "measure length") (auto simp: less_Suc_eq_le)

text \<open>
  The entries whose id is not in \<open>seen\<close> and has not occurred before in the list.
\<close>

fun first_unseen :: "ident set \<Rightarrow> memory_result list \<Rightarrow> memory_result list" where
  "first_unseen seen [] = []"
| "first_unseen seen (m # ms) =
     (if mr_observation_id m \<in> seen then first_unseen seen ms
      else m # first_unseen (insert (mr_observation_id m) seen) ms)"

text \<open>
  The two result lists \<open>recall\<close> fuses: what the semantic search returned, or nothing
  when it threw, and what the keyword search returned.
\<close>

definition recall_semantic :: "env \<Rightarrow> state \<Rightarrow> recall_input \<Rightarrow> semantic_search_result list" where
  "recall_semantic ev s input =
     (case semanticSearch ev s (rc_query input) (rc_limit input) (rc_type input) (rc_since input) of
        Inl e \<Rightarrow> [] | Inr results \<Rightarrow> results)"

definition recall_keyword :: "state \<Rightarrow> recall_input \<Rightarrow> observation_with_entity list" where
  "recall_keyword s input =
     searchObservations s \<lparr>so_query = rc_query input, so_limit = rc_limit input,
                           so_type = rc_type input, so_since = rc_since input\<rparr>"

section \<open>Properties of stores and of the identifier stream\<close>

text \<open>
  The identifiers still to be drawn are fresh when they are pairwise different, not
  empty, and not the id of any row: what a version-4 UUID gives but for a negligible
  probability.
\<close>

definition all_ids :: "state \<Rightarrow> ident set" where
  "all_ids s = set (map ent_id (entities s)) \<union> set (map obs_id (observations s))
               \<union> set (map rel_id (relationships s)) \<union> set (map emb_id (embeddings s))"

definition fresh_uuids :: "env \<Rightarrow> state \<Rightarrow> bool" where
  "fresh_uuids ev s \<longleftrightarrow>
     inj_on (uuid_src ev) {uuid_next s..}
     \<and> (\<forall>k \<ge> uuid_next s. uuid_src ev k \<notin> all_ids s \<and> uuid_src ev k \<noteq> [])"

definition rel_fresh :: "env \<Rightarrow> state \<Rightarrow> bool" where
  "rel_fresh ev s \<longleftrightarrow>
     inj_on (uuid_src ev) {uuid_next s..}
     \<and> (\<forall>k \<ge> uuid_next s. uuid_src ev k \<notin> set (map rel_id (relationships s)))"

text \<open>
  The foreign keys the schema declares, which SQLite enforces on every statement.
\<close>

definition foreign_keys_hold :: "state \<Rightarrow> bool" where
  "foreign_keys_hold s \<longleftrightarrow>
     (\<forall>ob \<in> set (observations s). obs_entity_id ob \<in> set (map ent_id (entities s)))
     \<and> (\<forall>m \<in> set (embeddings s). emb_entity_id m \<in> set (map ent_id (entities s))
                                  \<and> emb_observation_id m \<in> set (map obs_id (observations s)))
     \<and> (\<forall>r \<in> set (relationships s). rel_from_entity r \<in> set (map ent_id (entities s))
                                     \<and> rel_to_entity r \<in> set (map ent_id (entities s)))"

section \<open>remember: the best match, and the store after a write\<close>

text \<open>
  The best match among the stored vectors: index \<open>i\<close> has similarity \<open>sim\<close>, which
  reaches the threshold, no stored vector has a greater similarity, and none before
  \<open>i\<close> has the same.
\<close>

definition is_best_match :: "vec \<Rightarrow> stored_vector list \<Rightarrow> rat \<Rightarrow> nat \<Rightarrow> bool" where
  "is_best_match vector existing sim i \<longleftrightarrow>
     i < length existing
     \<and> sim = cosineSimilarity vector (sv_vector (existing ! i))
     \<and> DEDUP_THRESHOLD \<le> sim
     \<and> (\<forall>j < length existing. cosineSimilarity vector (sv_vector (existing ! j)) \<le> sim)
     \<and> (\<forall>j < i. cosineSimilarity vector (sv_vector (existing ! j)) < sim)"

text \<open>
  What the dedup loop has established after the prefix \<open>pre\<close> of the stored vectors.
\<close>

definition scan_inv :: "vec \<Rightarrow> stored_vector list \<Rightarrow> (rat \<times> nat) option \<Rightarrow> bool" where
  "scan_inv vector pre best =
     (case best of
        None \<Rightarrow> \<forall>x \<in> set pre. cosineSimilarity vector (sv_vector x) < DEDUP_THRESHOLD
      | Some (sim, i) \<Rightarrow> is_best_match vector pre sim i)"

text \<open>
  The rows an observation and its embedding are inserted as, the store after both
  inserts (the owning entity touched, two identifiers drawn), and the store without
  the observations of given ids and their embeddings.
\<close>

definition touched :: "state \<Rightarrow> ident \<Rightarrow> entity list" where
  "touched s entityId =
     map (\<lambda>e. if ent_id e = entityId then e\<lparr>ent_updated_at := wall_clock s\<rparr> else e) (entities s)"

definition inserted_observation ::
  "env \<Rightarrow> state \<Rightarrow> ident \<Rightarrow> string \<Rightarrow> string option \<Rightarrow> observation" where
  "inserted_observation ev s entityId content source =
     \<lparr>obs_id = uuid_src ev (uuid_next s), obs_entity_id = entityId, obs_content = content,
      obs_source = source, obs_created_at = wall_clock s\<rparr>"

definition inserted_embedding :: "env \<Rightarrow> state \<Rightarrow> ident \<Rightarrow> vec \<Rightarrow> string \<Rightarrow> embedding" where
  "inserted_embedding ev s entityId vector content =
     \<lparr>emb_id = uuid_src ev (Suc (uuid_next s)), emb_entity_id = entityId,
      emb_observation_id = uuid_src ev (uuid_next s), emb_vector = vector,
      emb_text_content = content, emb_created_at = wall_clock s\<rparr>"

definition with_new_observation ::
  "env \<Rightarrow> state \<Rightarrow> ident \<Rightarrow> string \<Rightarrow> string option \<Rightarrow> vec \<Rightarrow> state" where
  "with_new_observation ev s entityId content source vector =
     s\<lparr>entities := touched s entityId,
       observations := observations s @ [inserted_observation ev s entityId content source],
       embeddings := embeddings s @ [inserted_embedding ev s entityId vector content],
       uuid_next := Suc (Suc (uuid_next s))\<rparr>"

definition without_observations :: "state \<Rightarrow> ident set \<Rightarrow> state" where
  "without_observations s gone =
     s\<lparr>observations := filter (\<lambda>ob. obs_id ob \<notin> gone) (observations s),
       embeddings := filter (\<lambda>m. emb_observation_id m \<notin> gone) (embeddings s)\<rparr>"

section \<open>merge: the source the merged observation carries\<close>

text \<open>
  The first source that is not null among the originals, if there is one.
\<close>

definition first_source :: "observation list \<Rightarrow> string option" where
  "first_source originals =
     (case find (\<lambda>ob. obs_source ob \<noteq> None) originals of
        None \<Rightarrow> None
      | Some ob \<Rightarrow> obs_source ob)"

section \<open>Neighbourhood traversal: hops and distance\<close>

text \<open>
  Two entities are adjacent when the statement of the traversal returns the second
  for the first. A walk of \<open>k\<close> hops from the seed, and the hop distance: the length
  of a shortest walk.
\<close>

definition adjacent :: "state \<Rightarrow> ident \<Rightarrow> ident \<Rightarrow> bool" where
  "adjacent s u v \<longleftrightarrow> v \<in> fst ` set (related_rows s u)"

inductive hops :: "state \<Rightarrow> ident \<Rightarrow> nat \<Rightarrow> ident \<Rightarrow> bool" for s seed where
  hops_start: "hops s seed 0 seed"
| hops_step: "hops s seed k u \<Longrightarrow> adjacent s u v \<Longrightarrow> hops s seed (Suc k) v"

definition hop_distance :: "state \<Rightarrow> ident \<Rightarrow> ident \<Rightarrow> nat \<Rightarrow> bool" where
  "hop_distance s seed v d \<longleftrightarrow> hops s seed d v \<and> (\<forall>k < d. \<not> hops s seed k v)"

text \<open>
  The name and type recorded are those of the entity row of that id.
\<close>

definition entity_info :: "state \<Rightarrow> ident \<Rightarrow> neighbor \<Rightarrow> bool" where
  "entity_info s v info \<longleftrightarrow>
     (\<exists>e. find (\<lambda>e. ent_id e = v) (entities s) = Some e
          \<and> nb_name info = ent_name e \<and> nb_type info = ent_type e)"

text \<open>
  What holds of the queue and the map each time round the loop: queue depths ascend
  and differ by at most one; each queue entry is the end of a walk of its depth; each
  recorded depth is the hop distance; every neighbour of a recorded entity below the
  depth bound is recorded or queued one deeper; the seed is recorded from the first
  round on.
\<close>

definition bfs_inv ::
  "state \<Rightarrow> ident \<Rightarrow> nat \<Rightarrow> (ident \<times> nat) list \<Rightarrow> (ident \<rightharpoonup> neighbor) \<Rightarrow> bool" where
  "bfs_inv s seed M queue visited \<longleftrightarrow>
     sorted (map snd queue)
     \<and> (\<forall>x \<in> set queue. \<forall>y \<in> set queue. snd y \<le> Suc (snd x))
     \<and> (\<forall>x \<in> set queue. hops s seed (snd x) (fst x))
     \<and> (\<forall>v info. visited v = Some info \<longrightarrow>
           hop_distance s seed v (nb_depth info) \<and> nb_depth info \<le> M
           \<and> (v \<noteq> seed \<longrightarrow> entity_info s v info))
     \<and> (\<forall>u info v. visited u = Some info \<and> nb_depth info < M \<and> adjacent s u v \<longrightarrow>
           visited v \<noteq> None \<or> (v, Suc (nb_depth info)) \<in> set queue)
     \<and> (visited seed \<noteq> None \<or> (queue = [(seed, 0)] \<and> visited = Map.empty))"

section \<open>consolidate: components and the mean similarity\<close>

text \<open>
  A well-formed union-find structure on \<open>n\<close> elements: both arrays have length \<open>n\<close>,
  parents are indices, and the rank rises strictly from an element to its parent. The
  root of an element, reached by following parents; two elements are in the same class
  when they have the same root; a later structure keeps the roots of an earlier one.
\<close>

definition uf_ok :: "nat \<Rightarrow> union_find \<Rightarrow> bool" where
  "uf_ok n u \<longleftrightarrow>
     length (uf_parent u) = n \<and> length (uf_rank u) = n
     \<and> (\<forall>i < n. uf_parent u ! i < n)
     \<and> (\<forall>i < n. uf_parent u ! i \<noteq> i \<longrightarrow> uf_rank u ! i < uf_rank u ! (uf_parent u ! i))"

inductive root_of :: "nat list \<Rightarrow> nat \<Rightarrow> nat \<Rightarrow> bool" for p where
  root_here: "p ! i = i \<Longrightarrow> root_of p i i"
| root_up: "p ! i \<noteq> i \<Longrightarrow> root_of p (p ! i) r \<Longrightarrow> root_of p i r"

definition uf_same :: "union_find \<Rightarrow> nat \<Rightarrow> nat \<Rightarrow> bool" where
  "uf_same u i j \<longleftrightarrow> (\<exists>r. root_of (uf_parent u) i r \<and> root_of (uf_parent u) j r)"

definition roots_kept :: "union_find \<Rightarrow> union_find \<Rightarrow> bool" where
  "roots_kept u u' \<longleftrightarrow> (\<forall>i r. root_of (uf_parent u) i r \<longrightarrow> root_of (uf_parent u') i r)"

text \<open>
  Two indices are chained by a set of edges when a path of edges, each taken in either
  direction, leads from one to the other. The dot product of the vectors of a pair of
  indices, the edges of a list of vectors at a threshold, and what holds of the stored
  similarities: each is the dot product of its pair.
\<close>

definition chained :: "(nat \<times> nat) set \<Rightarrow> nat \<Rightarrow> nat \<Rightarrow> bool" where
  "chained E i j \<longleftrightarrow> (i, j) \<in> (E \<union> E\<inverse>)\<^sup>*"

definition pair_cos :: "stored_vector list \<Rightarrow> nat \<times> nat \<Rightarrow> rat" where
  "pair_cos vectors p =
     cosineSimilarity (sv_vector (vectors ! fst p)) (sv_vector (vectors ! snd p))"

definition similar_edges :: "stored_vector list \<Rightarrow> rat \<Rightarrow> (nat \<times> nat) set" where
  "similar_edges vectors threshold =
     {(i, j). i < j \<and> j < length vectors \<and> threshold \<le> pair_cos vectors (i, j)}"

definition sims_ok :: "stored_vector list \<Rightarrow> (nat \<times> nat \<rightharpoonup> rat) \<Rightarrow> bool" where
  "sims_ok vectors similarities \<longleftrightarrow>
     (\<forall>p sim. similarities p = Some sim \<longrightarrow> sim = pair_cos vectors p)"

text \<open>
  The connected component of an index \<open>m\<close> among \<open>n\<close> indices, as the ascending list of
  its members.
\<close>

definition component_of :: "(nat \<times> nat) set \<Rightarrow> nat \<Rightarrow> nat \<Rightarrow> nat list" where
  "component_of E n m = filter (\<lambda>j. chained E m j) [0..<n]"

text \<open>
  The pairs of members of a group, each pair once; the mean of the dot product over
  all of them; and the cluster the specification describes for a group: its members'
  observations and that mean rounded to three decimal places.
\<close>

definition member_pairs :: "nat list \<Rightarrow> (nat \<times> nat) set" where
  "member_pairs members = {(a, b). a \<in> set members \<and> b \<in> set members \<and> a < b}"

definition mean_similarity :: "stored_vector list \<Rightarrow> nat list \<Rightarrow> rat" where
  "mean_similarity vectors members =
     (\<Sum>p \<in> member_pairs members. pair_cos vectors p) / of_nat (card (member_pairs members))"

definition spec_cluster :: "stored_vector list \<Rightarrow> nat list \<Rightarrow> cluster" where
  "spec_cluster vectors members =
     \<lparr>cl_observations = map (\<lambda>idx. toClusterObservation (vectors ! idx)) members,
      cl_avg_similarity = Math_round (mean_similarity vectors members * 1000) / 1000\<rparr>"

text \<open>
  The pairs the two nested loops of the average visit, in their order.
\<close>

fun pairs_of :: "nat list \<Rightarrow> (nat \<times> nat) list" where
  "pairs_of [] = []"
| "pairs_of (a # rest) = map (Pair a) rest @ pairs_of rest"

section \<open>Concrete stores and environments\<close>

text \<open>A store with one entity \<open>k\<close> that has one observation and its embedding.\<close>

definition store_k :: state where
  "store_k =
     \<lparr>entities = [\<lparr>ent_id = ''e1'', ent_name = ''k'', ent_type = None,
                    ent_created_at = ''t0'', ent_updated_at = ''t0''\<rparr>],
      observations = [\<lparr>obs_id = ''o1'', obs_entity_id = ''e1'', obs_content = ''abc'',
                        obs_source = None, obs_created_at = ''t0''\<rparr>],
      relationships = [],
      embeddings = [\<lparr>emb_id = ''m1'', emb_entity_id = ''e1'', emb_observation_id = ''o1'',
                      emb_vector = [1, 0], emb_text_content = ''abc'',
                      emb_created_at = ''t0''\<rparr>],
      wall_clock = ''t1'', uuid_next = 0\<rparr>"

text \<open>
  An environment whose embedder maps every text to the same vector, and one whose
  embedder always fails.
\<close>

definition env_fixed :: env where
  "env_fixed =
     \<lparr>uuid_src = (\<lambda>n. replicate (Suc n) CHR ''u''),
      embedder = (\<lambda>text. Inr [1, 0]),
      regexp_test_i = (\<lambda>pattern text. False),
      number_toFixed = (\<lambda>x digits. ''0.000''),
      number_toString = (\<lambda>x. ''0'')\<rparr>"

definition env_down :: env where
  "env_down = env_fixed\<lparr>embedder := (\<lambda>text. Inl (EmbedderFailure ''model unavailable''))\<rparr>"

definition recall_b :: recall_input where
  "recall_b = \<lparr>rc_query = ''b'', rc_limit = 10, rc_type = None, rc_since = None\<rparr>"

text \<open>
  Two calls of \<open>remember\<close> on entity \<open>k\<close>, one with a text shorter than the stored
  observation and one with a longer text, the row of \<open>k\<close>, and the result of the
  first call.
\<close>

definition remember_short :: remember_input where
  "remember_short =
     \<lparr>ri_content = ''ab'', ri_entity = Some ''k'', ri_type = None, ri_source = None\<rparr>"

definition remember_long :: remember_input where
  "remember_long =
     \<lparr>ri_content = ''abcdef'', ri_entity = Some ''k'', ri_type = None, ri_source = Some ''chat''\<rparr>"

definition entity_k :: entity where
  "entity_k = \<lparr>ent_id = ''e1'', ent_name = ''k'', ent_type = None,
                ent_created_at = ''t0'', ent_updated_at = ''t0''\<rparr>"

definition skipped_result :: remember_result where
  "skipped_result =
     \<lparr>rr_success = True, rr_entityId = ''e1'', rr_entityName = ''k'',
      rr_observationId = ''o1'', rr_relationships_created = [],
      rr_message = ''Deduplicated: similar observation already exists for \"k\" (similarity: 0.000)'',
      rr_deduplicated = Some True, rr_replaced_observation = None\<rparr>"

text \<open>
  Three entities, with relationships from \<open>a\<close> to \<open>b\<close> and from \<open>c\<close> to \<open>b\<close>.
\<close>

definition store_abc :: state where
  "store_abc =
     \<lparr>entities =
        [\<lparr>ent_id = ''ea'', ent_name = ''a'', ent_type = None,
          ent_created_at = ''t0'', ent_updated_at = ''t0''\<rparr>,
         \<lparr>ent_id = ''eb'', ent_name = ''b'', ent_type = Some ''person'',
          ent_created_at = ''t0'', ent_updated_at = ''t0''\<rparr>,
         \<lparr>ent_id = ''ec'', ent_name = ''c'', ent_type = None,
          ent_created_at = ''t0'', ent_updated_at = ''t0''\<rparr>],
      observations = [],
      relationships =
        [\<lparr>rel_id = ''r1'', rel_from_entity = ''ea'', rel_to_entity = ''eb'',
          rel_relation_type = ''relates_to'', rel_created_at = ''t0''\<rparr>,
         \<lparr>rel_id = ''r2'', rel_from_entity = ''ec'', rel_to_entity = ''eb'',
          rel_relation_type = ''relates_to'', rel_created_at = ''t0''\<rparr>],
      embeddings = [],
      wall_clock = ''t1'', uuid_next = 0\<rparr>"

text \<open>
  An entity \<open>k\<close> with three observations whose vectors form a chain: the first and
  the second have similarity 0.8, the second and the third 0.8, the first and the third
  0.28. A call of \<open>consolidate\<close> on \<open>k\<close> with the default threshold, the vectors it
  loads, and the one cluster it returns.
\<close>

definition store_chain :: state where
  "store_chain =
     \<lparr>entities = [\<lparr>ent_id = ''e1'', ent_name = ''k'', ent_type = None,
                    ent_created_at = ''t0'', ent_updated_at = ''t0''\<rparr>],
      observations =
        [\<lparr>obs_id = ''o1'', obs_entity_id = ''e1'', obs_content = ''a'',
          obs_source = None, obs_created_at = ''t0''\<rparr>,
         \<lparr>obs_id = ''o2'', obs_entity_id = ''e1'', obs_content = ''b'',
          obs_source = None, obs_created_at = ''t0''\<rparr>,
         \<lparr>obs_id = ''o3'', obs_entity_id = ''e1'', obs_content = ''c'',
          obs_source = None, obs_created_at = ''t0''\<rparr>],
      relationships = [],
      embeddings =
        [\<lparr>emb_id = ''m1'', emb_entity_id = ''e1'', emb_observation_id = ''o1'',
          emb_vector = [1, 0], emb_text_content = ''a'', emb_created_at = ''t0''\<rparr>,
         \<lparr>emb_id = ''m2'', emb_entity_id = ''e1'', emb_observation_id = ''o2'',
          emb_vector = [4 / 5, 3 / 5], emb_text_content = ''b'', emb_created_at = ''t0''\<rparr>,
         \<lparr>emb_id = ''m3'', emb_entity_id = ''e1'', emb_observation_id = ''o3'',
          emb_vector = [7 / 25, 24 / 25], emb_text_content = ''c'', emb_created_at = ''t0''\<rparr>],
      wall_clock = ''t1'', uuid_next = 0\<rparr>"

definition consolidate_k :: consolidate_input where
  "consolidate_k = \<lparr>ci_entity = Some ''k'', ci_threshold = None\<rparr>"

definition chain_vectors :: "stored_vector list" where
  "chain_vectors =
     [\<lparr>sv_observation_id = ''o1'', sv_entity_id = ''e1'', sv_entity_name = ''k'',
       sv_entity_type = None, sv_content = ''a'', sv_source = None, sv_created_at = ''t0'',
       sv_vector = [1, 0]\<rparr>,
      \<lparr>sv_observation_id = ''o2'', sv_entity_id = ''e1'', sv_entity_name = ''k'',
       sv_entity_type = None, sv_content = ''b'', sv_source = None, sv_created_at = ''t0'',
       sv_vector = [4 / 5, 3 / 5]\<rparr>,
      \<lparr>sv_observation_id = ''o3'', sv_entity_id = ''e1'', sv_entity_name = ''k'',
       sv_entity_type = None, sv_content = ''c'', sv_source = None, sv_created_at = ''t0'',
       sv_vector = [7 / 25, 24 / 25]\<rparr>]"

definition chain_cluster :: cluster where
  "chain_cluster =
     \<lparr>cl_observations =
        [\<lparr>co_observation_id = ''o1'', co_entity = ''k'', co_type = None, co_content = ''a'',
          co_source = None, co_remembered_at = ''t0''\<rparr>,
         \<lparr>co_observation_id = ''o2'', co_entity = ''k'', co_type = None, co_content = ''b'',
          co_source = None, co_remembered_at = ''t0''\<rparr>,
         \<lparr>co_observation_id = ''o3'', co_entity = ''k'', co_type = None, co_content = ''c'',
          co_source = None, co_remembered_at = ''t0''\<rparr>],
      cl_avg_similarity = 627 / 1000\<rparr>"

section \<open>Schema versioning: what opening does with the stored version\<close>

text \<open>
  C2, as the code has it. \<open>initializeSchema\<close> has no branch that refuses a version: it
  returns normally for every stored version. A stored version below 2 (and an empty
  version table) becomes exactly 2, and in that case the version-2 migration has run: the
  tables \<open>embeddings\<close> and \<open>relationships\<close> exist afterwards. A stored version of 2 or
  more, in particular one above 2, is left as it is, and the migration does not run: no
  table is added beyond the three first-version tables, which exist afterwards in every
  case.
\<close>

theorem initializeSchema_version:
  "\<exists>d'. initializeSchema d = Inr d'
     \<and> version_row d' =
         (case version_row d of
            None \<Rightarrow> Some 2
          | Some v \<Rightarrow> if v < 2 then Some 2 else Some v)
     \<and> tables d' =
         tables d \<union> {''schema_version'', ''entities'', ''observations''}
         \<union> (case version_row d of
              None \<Rightarrow> {''embeddings'', ''relationships''}
            | Some v \<Rightarrow> if v < 2 then {''embeddings'', ''relationships''} else {})"
  by (auto simp: initializeSchema_def exec_SCHEMA_V1_SQL_def exec_SCHEMA_V2_SQL_def
        SCHEMA_VERSION_def Let_def split: option.splits)

text \<open>
  A database written by the first version of the schema, with its three tables and the
  stored version 1, is migrated.
\<close>

theorem initializeSchema_version_witness:
  "initializeSchema
     \<lparr>tables = {''schema_version'', ''entities'', ''observations''}, version_row = Some 1\<rparr> =
     Inr \<lparr>tables = {''schema_version'', ''entities'', ''observations'',
                    ''embeddings'', ''relationships''},
          version_row = Some 2\<rparr>"
  using initializeSchema_version
    [of "\<lparr>tables = {''schema_version'', ''entities'', ''observations''}, version_row = Some 1\<rparr>"]
  by (auto simp: initializeSchema_def exec_SCHEMA_V1_SQL_def exec_SCHEMA_V2_SQL_def
        SCHEMA_VERSION_def Let_def)

text \<open>
  C2 as the specification words it fails: a database whose stored version is 3 is
  opened without an error and its version stays 3.
\<close>

theorem initializeSchema_newer_version_counterexample:
  "initializeSchema \<lparr>tables = {''schema_version''}, version_row = Some 3\<rparr> =
     Inr \<lparr>tables = {''schema_version'', ''entities'', ''observations''},
          version_row = Some 3\<rparr>"
  by (auto simp: initializeSchema_def exec_SCHEMA_V1_SQL_def Let_def)


section \<open>forget: the argument check\<close>

text \<open>
  C3, as the code has it. The guard of \<open>forget\<close> rejects the call only when neither
  argument is given (absent or empty): then the result is \<open>success: false\<close> with the
  message and the store is untouched. When \<open>observation_id\<close> is given, the
  \<open>entity\<close> argument is not looked at, also when it is given too: the call is the
  deletion by observation id, it succeeds exactly when a row of that id existed, and it
  removes that row and its embeddings.
\<close>

theorem forget_both_or_neither:
  "(\<not> truthy ent \<and> \<not> truthy oid \<longrightarrow>
      forget s \<lparr>fi_entity = ent, fi_observation_id = oid\<rparr> =
        (\<lparr>fr_success = False,
          fr_message = ''Either entity name or observation_id is required.'',
          fr_deleted = no_deletions\<rparr>, s))
   \<and> (truthy oid \<longrightarrow>
      forget s \<lparr>fi_entity = ent, fi_observation_id = oid\<rparr> =
        forget s \<lparr>fi_entity = None, fi_observation_id = oid\<rparr>
      \<and> fr_success (fst (forget s \<lparr>fi_entity = ent, fi_observation_id = oid\<rparr>)) =
          (the oid \<in> set (map obs_id (observations s)))
      \<and> snd (forget s \<lparr>fi_entity = ent, fi_observation_id = oid\<rparr>) =
          s\<lparr>observations := filter (\<lambda>ob. obs_id ob \<noteq> the oid) (observations s),
            embeddings := filter (\<lambda>m. emb_observation_id m \<noteq> the oid) (embeddings s)\<rparr>)"
  by (auto simp: forget_def deleteEmbedding_def deleteObservation_def Let_def
        filter_empty_conv image_iff intro: rev_bexI)

theorem forget_both_or_neither_witness:
  "forget store_k \<lparr>fi_entity = None, fi_observation_id = Some []\<rparr> =
     (\<lparr>fr_success = False,
       fr_message = ''Either entity name or observation_id is required.'',
       fr_deleted = no_deletions\<rparr>, store_k)
   \<and> forget store_k \<lparr>fi_entity = Some ''k'', fi_observation_id = Some ''o1''\<rparr> =
       forget store_k \<lparr>fi_entity = None, fi_observation_id = Some ''o1''\<rparr>"
  using forget_both_or_neither [of None "Some []" store_k]
    forget_both_or_neither [of "Some ''k''" "Some ''o1''" store_k]
  by simp

text \<open>
  C3 as the specification words it fails when both arguments are given: the call
  succeeds and the observation and its embedding are gone.
\<close>

theorem forget_both_counterexample:
  "fr_success (fst (forget store_k \<lparr>fi_entity = Some ''k'', fi_observation_id = Some ''o1''\<rparr>))
   \<and> observations store_k \<noteq> []
   \<and> observations
        (snd (forget store_k \<lparr>fi_entity = Some ''k'', fi_observation_id = Some ''o1''\<rparr>)) = []
   \<and> embeddings
        (snd (forget store_k \<lparr>fi_entity = Some ''k'', fi_observation_id = Some ''o1''\<rparr>)) = []"
  by (simp add: forget_def deleteEmbedding_def deleteObservation_def store_k_def)

section \<open>merge: the empty request\<close>

text \<open>
  C10. With no observation ids, \<open>getObservationsByIds\<close> returns the empty array, no id
  is missing, the set of entity ids is empty, and reading \<open>entity_id\<close> of
  \<open>observations[0]\<close> throws: \<open>merge\<close> raises a TypeError and the store is the one it
  was called on.
\<close>

theorem merge_empty_ids_raises:
  "merge ev s \<lparr>mi_observation_ids = [], mi_content = content\<rparr> =
     Raise (TypeError ''Cannot read properties of undefined'') s"
  by (simp add: merge_def getObservationsByIds_def)


section \<open>recall: fusion of the semantic and the keyword results\<close>

lemma first_unseen_filter:
  "first_unseen seen xs = dedup_first (filter (\<lambda>x. mr_observation_id x \<notin> seen) xs)"
proof (induction xs arbitrary: seen)
  case Nil
  then show ?case by simp
next
  case (Cons m ms)
  have "filter (\<lambda>x. mr_observation_id x \<noteq> mr_observation_id m)
          (filter (\<lambda>x. mr_observation_id x \<notin> seen) ms) =
        filter (\<lambda>x. mr_observation_id x \<notin> insert (mr_observation_id m) seen) ms"
    by (auto intro: filter_cong)
  with Cons show ?case by simp
qed

lemma first_unseen_append:
  "first_unseen seen (xs @ ys) =
     first_unseen seen xs @ first_unseen (seen \<union> mr_observation_id ` set xs) ys"
proof (induction xs arbitrary: seen)
  case Nil
  then show ?case by simp
next
  case (Cons m ms)
  show ?case
  proof (cases "mr_observation_id m \<in> seen")
    case True
    then have "seen \<union> mr_observation_id ` set (m # ms) = seen \<union> mr_observation_id ` set ms"
      by auto
    with True Cons show ?thesis by simp
  next
    case False
    have "insert (mr_observation_id m) seen \<union> mr_observation_id ` set ms =
          seen \<union> mr_observation_id ` set (m # ms)"
      by auto
    with False Cons [of "insert (mr_observation_id m) seen"] show ?thesis by simp
  qed
qed

lemma semantic_loop_eq:
  "semantic_loop rs (seen, mem) =
     (seen \<union> ssr_observation_id ` {r \<in> set rs. SIMILARITY_THRESHOLD \<le> ssr_similarity r},
      mem @ first_unseen seen
              (map semantic_memory (filter (\<lambda>r. SIMILARITY_THRESHOLD \<le> ssr_similarity r) rs)))"
proof (induction rs arbitrary: seen mem)
  case Nil
  then show ?case by simp
next
  case (Cons r rs)
  show ?case
    by (auto simp: Cons semantic_memory_def not_less)
qed

lemma keyword_loop_eq:
  "keyword_loop obs (seen, mem) =
     (seen \<union> owe_id ` set obs, mem @ first_unseen seen (map formatObservation obs))"
proof (induction obs arbitrary: seen mem)
  case Nil
  then show ?case by simp
next
  case (Cons ob obs)
  show ?case
    by (auto simp: Cons formatObservation_def)
qed

lemma fused_memories:
  "snd (keyword_loop kw (semantic_loop sem ({}, []))) =
     dedup_first (map semantic_memory (filter (\<lambda>r. SIMILARITY_THRESHOLD \<le> ssr_similarity r) sem)
                  @ map formatObservation kw)"
proof -
  let ?S = "map semantic_memory (filter (\<lambda>r. SIMILARITY_THRESHOLD \<le> ssr_similarity r) sem)"
  have ids: "mr_observation_id ` semantic_memory `
               {r \<in> set sem. SIMILARITY_THRESHOLD \<le> ssr_similarity r} =
             ssr_observation_id ` {r \<in> set sem. SIMILARITY_THRESHOLD \<le> ssr_similarity r}"
    by (auto simp: semantic_memory_def image_iff)
  have "snd (keyword_loop kw (semantic_loop sem ({}, []))) =
          first_unseen {} ?S @ first_unseen ({} \<union> mr_observation_id ` set ?S)
                                 (map formatObservation kw)"
    by (simp add: semantic_loop_eq keyword_loop_eq ids)
  also have "\<dots> = first_unseen {} (?S @ map formatObservation kw)"
    by (simp only: first_unseen_append)
  also have "\<dots> = dedup_first (?S @ map formatObservation kw)"
    by (simp add: first_unseen_filter)
  finally show ?thesis .
qed

lemma order_by_desc_sorted:
  "sorted_wrt (\<lambda>a b. key b \<le> key a) (order_by_desc key rows)"
proof -
  have "sorted (map key (sort_key key (rev rows)))" by simp
  then have "sorted_wrt (\<lambda>a b. key a \<le> key b) (sort_key key (rev rows))"
    by (simp add: sorted_map)
  then show ?thesis
    unfolding order_by_desc_def by (simp add: sorted_wrt_rev)
qed

lemma sorted_wrt_take: "sorted_wrt P xs \<Longrightarrow> sorted_wrt P (take n xs)"
  by (metis append_take_drop_id sorted_wrt_append)

lemma semanticSearch_sorted:
  "semanticSearch ev s q limit type since = Inr results \<Longrightarrow>
     sorted_wrt (\<lambda>a b. ssr_similarity b \<le> ssr_similarity a) results"
  by (auto simp: semanticSearch_def Let_def split: sum.splits
        intro!: sorted_wrt_take order_by_desc_sorted)

lemma searchObservations_sorted:
  "sorted_wrt (\<lambda>a b. owe_created_at b \<le> owe_created_at a) (searchObservations s options)"
  by (auto simp: searchObservations_def Let_def intro!: sorted_wrt_take order_by_desc_sorted)

lemma recall_eq:
  "recall ev s input =
     \<lparr>rcr_success = True,
      rcr_count = length (take (rc_limit input) (dedup_first
          (map semantic_memory
             (filter (\<lambda>r. SIMILARITY_THRESHOLD \<le> ssr_similarity r) (recall_semantic ev s input))
           @ map formatObservation (recall_keyword s input)))),
      rcr_memories = take (rc_limit input) (dedup_first
          (map semantic_memory
             (filter (\<lambda>r. SIMILARITY_THRESHOLD \<le> ssr_similarity r) (recall_semantic ev s input))
           @ map formatObservation (recall_keyword s input)))\<rparr>"
  unfolding recall_def recall_semantic_def [symmetric] recall_keyword_def [symmetric] Let_def
  by (simp add: split_beta fused_memories)

lemma dedup_first_distinct:
  "distinct (map mr_observation_id xs) \<Longrightarrow> dedup_first xs = xs"
proof (induction xs)
  case Nil
  then show ?case by simp
next
  case (Cons m ms)
  then have "filter (\<lambda>x. mr_observation_id x \<noteq> mr_observation_id m) ms = ms"
    by (auto simp: filter_id_conv image_iff)
  with Cons show ?case by simp
qed

lemma recall_keyword_length: "length (recall_keyword s input) \<le> rc_limit input"
  by (simp add: recall_keyword_def searchObservations_def Let_def)

lemma formatObservation_ids: "mr_observation_id \<circ> formatObservation = owe_id"
  by (auto simp: fun_eq_iff formatObservation_def)

lemma floor_numeral_div: "\<lfloor>numeral a / numeral b :: rat\<rfloor> = numeral a div numeral b"
  using floor_divide_of_int_eq [of "numeral a" "numeral b", where ?'a = rat] by simp

lemma recall_keyword_store_k:
  "recall_keyword store_k recall_b =
     [\<lparr>owe_id = ''o1'', owe_entity_id = ''e1'', owe_content = ''abc'', owe_source = None,
       owe_created_at = ''t0'', owe_entity_name = ''k'', owe_entity_type = None\<rparr>]"
  by (simp add: recall_keyword_def recall_b_def searchObservations_def store_k_def
        order_by_desc_def ascii_lower_def)

lemma recall_semantic_store_k:
  "recall_semantic env_fixed store_k recall_b =
     [\<lparr>ssr_observation_id = ''o1'', ssr_entity_id = ''e1'', ssr_entity_name = ''k'',
       ssr_entity_type = None, ssr_content = ''abc'', ssr_source = None,
       ssr_created_at = ''t0'', ssr_similarity = 1\<rparr>]"
  by (simp add: recall_semantic_def recall_b_def semanticSearch_def generateEmbedding_def
        env_fixed_def joined_embeddings_def store_k_def order_by_desc_def cosineSimilarity_def)

text \<open>
  C4. The list \<open>recall\<close> returns is the concatenation of the semantic results of
  similarity at least 0.15 (each tagged with its similarity rounded to three places)
  and the keyword results, deduplicated by observation id with the first occurrence
  winning, and cut to \<open>limit\<close> entries; \<open>count\<close> is its length. The semantic
  results arrive in descending order of similarity and the keyword results newest
  first.
\<close>

theorem recall_fusion:
  "rcr_memories (recall ev s input) =
     take (rc_limit input) (dedup_first
       (map semantic_memory
          (filter (\<lambda>r. SIMILARITY_THRESHOLD \<le> ssr_similarity r) (recall_semantic ev s input))
        @ map formatObservation (recall_keyword s input)))
   \<and> rcr_count (recall ev s input) = length (rcr_memories (recall ev s input))
   \<and> length (rcr_memories (recall ev s input)) \<le> rc_limit input
   \<and> sorted_wrt (\<lambda>a b. ssr_similarity b \<le> ssr_similarity a) (recall_semantic ev s input)
   \<and> sorted_wrt (\<lambda>a b. owe_created_at b \<le> owe_created_at a) (recall_keyword s input)"
proof -
  have "sorted_wrt (\<lambda>a b. ssr_similarity b \<le> ssr_similarity a) (recall_semantic ev s input)"
    unfolding recall_semantic_def
    by (auto split: sum.splits dest: semanticSearch_sorted)
  moreover have "sorted_wrt (\<lambda>a b. owe_created_at b \<le> owe_created_at a) (recall_keyword s input)"
    unfolding recall_keyword_def by (rule searchObservations_sorted)
  ultimately show ?thesis
    by (simp add: recall_eq)
qed

theorem recall_fusion_witness:
  "rcr_memories (recall env_fixed store_k recall_b) =
     [\<lparr>mr_observation_id = ''o1'', mr_entity = ''k'', mr_type = None, mr_content = ''abc'',
       mr_source = None, mr_remembered_at = ''t0'', mr_similarity = Some 1\<rparr>]
   \<and> rcr_count (recall env_fixed store_k recall_b) = 1"
proof -
  have limit: "rc_limit recall_b = 10"
    by (simp add: recall_b_def)
  show ?thesis
    using recall_fusion [of env_fixed store_k recall_b]
    by (simp add: recall_keyword_store_k recall_semantic_store_k SIMILARITY_THRESHOLD_def
          semantic_memory_def formatObservation_def Math_round_def floor_numeral_div limit)
qed

text \<open>
  C8. When the embedder throws, the semantic search throws, \<open>recall\<close> catches it and
  goes on with no semantic results: it returns \<open>success: true\<close> with the keyword
  results, deduplicated and cut to \<open>limit\<close>; these are the keyword results
  themselves when their ids are distinct. \<open>recall\<close> has no other outcome than a result.
\<close>

theorem recall_embedder_failure:
  assumes "generateEmbedding ev (rc_query input) = Inl e"
  shows "recall ev s input =
           \<lparr>rcr_success = True,
            rcr_count = length (take (rc_limit input)
                           (dedup_first (map formatObservation (recall_keyword s input)))),
            rcr_memories = take (rc_limit input)
                             (dedup_first (map formatObservation (recall_keyword s input)))\<rparr>
         \<and> (distinct (map owe_id (recall_keyword s input)) \<longrightarrow>
              rcr_memories (recall ev s input) = map formatObservation (recall_keyword s input))"
proof -
  from assms have sem: "recall_semantic ev s input = []"
    by (simp add: recall_semantic_def semanticSearch_def)
  have eq: "recall ev s input =
           \<lparr>rcr_success = True,
            rcr_count = length (take (rc_limit input)
                           (dedup_first (map formatObservation (recall_keyword s input)))),
            rcr_memories = take (rc_limit input)
                             (dedup_first (map formatObservation (recall_keyword s input)))\<rparr>"
    by (simp add: recall_eq sem)
  have "rcr_memories (recall ev s input) = map formatObservation (recall_keyword s input)"
    if "distinct (map owe_id (recall_keyword s input))"
  proof -
    from that have "dedup_first (map formatObservation (recall_keyword s input)) =
                    map formatObservation (recall_keyword s input)"
      by (intro dedup_first_distinct) (simp add: formatObservation_ids)
    then show ?thesis
      using recall_keyword_length [of s input] by (simp add: eq)
  qed
  with eq show ?thesis by simp
qed

theorem recall_embedder_failure_witness:
  "generateEmbedding env_down ''b'' = Inl (EmbedderFailure ''model unavailable'')
   \<and> recall env_down store_k recall_b =
       \<lparr>rcr_success = True, rcr_count = 1,
        rcr_memories =
          [\<lparr>mr_observation_id = ''o1'', mr_entity = ''k'', mr_type = None, mr_content = ''abc'',
            mr_source = None, mr_remembered_at = ''t0'', mr_similarity = None\<rparr>]\<rparr>"
proof -
  have h: "generateEmbedding env_down (rc_query recall_b) = Inl (EmbedderFailure ''model unavailable'')"
    by (simp add: generateEmbedding_def env_down_def recall_b_def)
  show ?thesis
    using recall_embedder_failure [OF h, of store_k] h
    by (simp add: recall_keyword_store_k formatObservation_def) (simp add: recall_b_def)
qed


section \<open>remember: the dedup decision\<close>

lemma scan_inv_step:
  assumes "scan_inv vector pre best"
  shows "scan_inv vector (pre @ [x])
           (if cosineSimilarity vector (sv_vector x) \<ge> DEDUP_THRESHOLD
               \<and> (case best of None \<Rightarrow> True | Some b \<Rightarrow> cosineSimilarity vector (sv_vector x) > fst b)
            then Some (cosineSimilarity vector (sv_vector x), length pre) else best)"
proof (cases best)
  case None
  with assms have "\<forall>j < length pre. cosineSimilarity vector (sv_vector (pre ! j)) < DEDUP_THRESHOLD"
    by (simp add: scan_inv_def)
  then have "\<forall>j < length pre. DEDUP_THRESHOLD \<le> cosineSimilarity vector (sv_vector x) \<longrightarrow>
               cosineSimilarity vector (sv_vector (pre ! j)) < cosineSimilarity vector (sv_vector x)"
    by (meson less_le_trans)
  with None assms show ?thesis
    by (auto simp: scan_inv_def is_best_match_def nth_append less_Suc_eq
          intro: less_imp_le)
next
  case (Some b)
  obtain sim i where b: "b = (sim, i)" by (cases b)
  with Some assms have m: "is_best_match vector pre sim i"
    by (simp add: scan_inv_def)
  show ?thesis
  proof (cases "cosineSimilarity vector (sv_vector x) \<ge> DEDUP_THRESHOLD
                 \<and> cosineSimilarity vector (sv_vector x) > sim")
    case True
    with m Some b show ?thesis
      by (auto simp: scan_inv_def is_best_match_def nth_append less_Suc_eq)
  next
    case False
    with m Some b show ?thesis
      by (auto simp: scan_inv_def is_best_match_def nth_append less_Suc_eq)
  qed
qed

lemma dedup_scan_inv:
  "scan_inv vector pre best \<Longrightarrow> i = length pre \<Longrightarrow>
     scan_inv vector (pre @ xs) (dedup_scan vector xs i best)"
proof (induction xs arbitrary: pre best i)
  case Nil
  then show ?case by simp
next
  case (Cons x xs)
  let ?b = "if cosineSimilarity vector (sv_vector x) \<ge> DEDUP_THRESHOLD
               \<and> (case best of None \<Rightarrow> True | Some b \<Rightarrow> cosineSimilarity vector (sv_vector x) > fst b)
            then Some (cosineSimilarity vector (sv_vector x), length pre) else best"
  have "scan_inv vector (pre @ [x]) ?b"
    using Cons.prems(1) by (rule scan_inv_step)
  then have "scan_inv vector ((pre @ [x]) @ xs) (dedup_scan vector xs (Suc i) ?b)"
    using Cons.prems(2) by (intro Cons.IH) simp_all
  moreover have "dedup_scan vector (x # xs) i best = dedup_scan vector xs (Suc i) ?b"
    using Cons.prems(2) by (simp add: Let_def)
  ultimately show ?case by simp
qed

lemma dedup_scan_best:
  "scan_inv vector existing (dedup_scan vector existing 0 None)"
  using dedup_scan_inv [of vector "[]" None 0 existing] by (simp add: scan_inv_def)

lemma find_snoc_fresh:
  "i \<notin> set (map f xs) \<Longrightarrow> f y = i \<Longrightarrow> find (\<lambda>x. f x = i) (xs @ [y]) = Some y"
  by (induction xs) auto

lemma createObservation_ok:
  assumes "uuid_src ev (uuid_next s) \<notin> set (map obs_id (observations s))"
    and "entityId \<in> set (map ent_id (entities s))"
  shows "createObservation ev s entityId content source =
           Ok (inserted_observation ev s entityId content source)
              (s\<lparr>entities := touched s entityId,
                 observations := observations s @ [inserted_observation ev s entityId content source],
                 uuid_next := Suc (uuid_next s)\<rparr>)"
proof -
  have "find (\<lambda>ob. obs_id ob = uuid_src ev (uuid_next s))
          (observations s @ [inserted_observation ev s entityId content source]) =
        Some (inserted_observation ev s entityId content source)"
    using assms(1) by (intro find_snoc_fresh) (simp_all add: inserted_observation_def)
  then show ?thesis
    using assms
    by (simp add: createObservation_def randomUUID_def updateEntityTimestamp_def touched_def
          inserted_observation_def Let_def)
qed

lemma storeEmbedding_ok:
  assumes "uuid_src ev (uuid_next s) \<notin> set (map emb_id (embeddings s))"
    and "entityId \<in> set (map ent_id (entities s))"
    and "observationId \<in> set (map obs_id (observations s))"
  shows "storeEmbedding ev s entityId observationId vector content =
           Ok (uuid_src ev (uuid_next s))
              (s\<lparr>embeddings := embeddings s @
                   [\<lparr>emb_id = uuid_src ev (uuid_next s), emb_entity_id = entityId,
                     emb_observation_id = observationId, emb_vector = vector,
                     emb_text_content = content, emb_created_at = wall_clock s\<rparr>],
                 uuid_next := Suc (uuid_next s)\<rparr>)"
  using assms by (simp add: storeEmbedding_def randomUUID_def Let_def)

lemma touched_ids: "map ent_id (touched s entityId) = map ent_id (entities s)"
  by (simp add: touched_def comp_def if_distrib [of ent_id] cong: if_cong)

lemma fresh_uuidsD:
  assumes "fresh_uuids ev s" and "uuid_next s \<le> k"
  shows "uuid_src ev k \<notin> set (map ent_id (entities s))"
    and "uuid_src ev k \<notin> set (map obs_id (observations s))"
    and "uuid_src ev k \<notin> set (map rel_id (relationships s))"
    and "uuid_src ev k \<notin> set (map emb_id (embeddings s))"
    and "uuid_src ev k \<noteq> []"
  using assms by (auto simp: fresh_uuids_def all_ids_def)

lemma store_pair_ok:
  assumes fresh: "fresh_uuids ev s"
    and ent: "entityId \<in> set (map ent_id (entities s))"
  shows "createObservation ev s entityId content source =
           Ok (inserted_observation ev s entityId content source)
              (s\<lparr>entities := touched s entityId,
                 observations := observations s @ [inserted_observation ev s entityId content source],
                 uuid_next := Suc (uuid_next s)\<rparr>)"
    and "storeEmbedding ev
           (s\<lparr>entities := touched s entityId,
              observations := observations s @ [inserted_observation ev s entityId content source],
              uuid_next := Suc (uuid_next s)\<rparr>)
           entityId (obs_id (inserted_observation ev s entityId content source)) vector content =
         Ok (uuid_src ev (Suc (uuid_next s)))
            (with_new_observation ev s entityId content source vector)"
proof -
  show "createObservation ev s entityId content source =
           Ok (inserted_observation ev s entityId content source)
              (s\<lparr>entities := touched s entityId,
                 observations := observations s @ [inserted_observation ev s entityId content source],
                 uuid_next := Suc (uuid_next s)\<rparr>)"
    using fresh_uuidsD(2) [OF fresh order_refl] ent by (rule createObservation_ok)
next
  let ?s1 = "s\<lparr>entities := touched s entityId,
              observations := observations s @ [inserted_observation ev s entityId content source],
              uuid_next := Suc (uuid_next s)\<rparr>"
  have "uuid_src ev (uuid_next ?s1) \<notin> set (map emb_id (embeddings ?s1))"
    using fresh_uuidsD(4) [OF fresh, of "Suc (uuid_next s)"] by simp
  moreover have "entityId \<in> set (map ent_id (entities ?s1))"
    using ent by (simp add: touched_ids del: set_map)
  moreover have "obs_id (inserted_observation ev s entityId content source)
                   \<in> set (map obs_id (observations ?s1))"
    by simp
  ultimately have "storeEmbedding ev ?s1 entityId
      (obs_id (inserted_observation ev s entityId content source)) vector content =
      Ok (uuid_src ev (uuid_next ?s1))
         (?s1\<lparr>embeddings := embeddings ?s1 @
                [\<lparr>emb_id = uuid_src ev (uuid_next ?s1), emb_entity_id = entityId,
                  emb_observation_id = obs_id (inserted_observation ev s entityId content source),
                  emb_vector = vector, emb_text_content = content,
                  emb_created_at = wall_clock ?s1\<rparr>],
               uuid_next := Suc (uuid_next ?s1)\<rparr>)"
    by (rule storeEmbedding_ok)
  then show "storeEmbedding ev ?s1 entityId
      (obs_id (inserted_observation ev s entityId content source)) vector content =
      Ok (uuid_src ev (Suc (uuid_next s)))
         (with_new_observation ev s entityId content source vector)"
    by (simp add: with_new_observation_def inserted_embedding_def inserted_observation_def)
qed

lemma fresh_uuids_rel_fresh: "fresh_uuids ev s \<Longrightarrow> rel_fresh ev s"
  by (auto simp: fresh_uuids_def rel_fresh_def all_ids_def)

lemma rel_fresh_mono:
  assumes "rel_fresh ev s" and "relationships s' = relationships s"
    and "uuid_next s \<le> uuid_next s'"
  shows "rel_fresh ev s'"
proof -
  have "{uuid_next s'..} \<subseteq> {uuid_next s..}"
    using assms(3) by auto
  then have "inj_on (uuid_src ev) {uuid_next s'..}"
    using assms(1) by (auto simp: rel_fresh_def intro: inj_on_subset)
  then show ?thesis
    using assms by (auto simp: rel_fresh_def)
qed

lemma createRelationship_ok:
  assumes "rel_fresh ev s"
    and "a \<in> set (map ent_id (entities s))" and "b \<in> set (map ent_id (entities s))"
  shows "\<exists>r s'. createRelationship ev s a b relationType = Ok r s'
           \<and> rel_fresh ev s' \<and> entities s' = entities s
           \<and> observations s' = observations s \<and> embeddings s' = embeddings s"
proof -
  let ?n = "uuid_next s"
  let ?row = "\<lparr>rel_id = uuid_src ev ?n, rel_from_entity = a, rel_to_entity = b,
               rel_relation_type = relationType, rel_created_at = wall_clock s\<rparr>"
  let ?s' = "s\<lparr>uuid_next := Suc ?n, relationships := relationships s @ [?row]\<rparr>"
  have notin: "uuid_src ev ?n \<notin> set (map rel_id (relationships s))"
    using assms(1) by (simp add: rel_fresh_def)
  then have "find (\<lambda>r. rel_id r = uuid_src ev ?n) (relationships s @ [?row]) = Some ?row"
    by (intro find_snoc_fresh) simp_all
  then have eq: "createRelationship ev s a b relationType = Ok ?row ?s'"
    using assms(2,3) notin by (simp add: createRelationship_def randomUUID_def Let_def)
  have inj: "inj_on (uuid_src ev) {?n..}"
    using assms(1) by (simp add: rel_fresh_def)
  have "uuid_src ev k \<noteq> uuid_src ev ?n" if "Suc ?n \<le> k" for k
  proof
    assume "uuid_src ev k = uuid_src ev ?n"
    with inj have "k = ?n"
      by (rule inj_onD) (use that in auto)
    with that show False by simp
  qed
  moreover have "inj_on (uuid_src ev) {Suc ?n..}"
    using inj by (rule inj_on_subset) auto
  ultimately have "rel_fresh ev ?s'"
    using assms(1) by (auto simp: rel_fresh_def)
  with eq show ?thesis by simp
qed

lemma detect_loop_ok:
  assumes "rel_fresh ev s"
    and "ent_id sourceEntity \<in> set (map ent_id (entities s))"
    and "\<forall>c \<in> set candidates. ent_id c \<in> set (map ent_id (entities s))"
  shows "\<exists>names s'. detect_loop ev sourceEntity content candidates s created = Ok names s'
           \<and> entities s' = entities s \<and> observations s' = observations s
           \<and> embeddings s' = embeddings s"
  using assms
proof (induction candidates arbitrary: s created)
  case Nil
  then show ?case by simp
next
  case (Cons c rest)
  have rest: "\<forall>c \<in> set rest. ent_id c \<in> set (map ent_id (entities s))"
    using Cons.prems(3) by simp
  note skip = Cons.IH [OF Cons.prems(1,2) rest]
  show ?case
  proof (cases "ent_id c \<noteq> ent_id sourceEntity \<and> ent_name c \<notin> SKIP_ENTITIES
                 \<and> \<not> length (ent_name c) < MIN_NAME_LENGTH
                 \<and> regexp_test_i ev (name_pattern (ent_name c)) content
                 \<and> \<not> relationshipExists s (ent_id sourceEntity) (ent_id c)")
    case False
    then show ?thesis
      using skip [of created] by auto
  next
    case True
    have "ent_id c \<in> set (map ent_id (entities s))"
      using Cons.prems(3) by simp
    from createRelationship_ok [OF Cons.prems(1,2) this, of "''relates_to''"]
    obtain r s1 where cr: "createRelationship ev s (ent_id sourceEntity) (ent_id c) ''relates_to'' = Ok r s1"
      and fresh1: "rel_fresh ev s1" and same: "entities s1 = entities s"
        "observations s1 = observations s" "embeddings s1 = embeddings s"
      by blast
    have "\<exists>names s'. detect_loop ev sourceEntity content rest s1 (created @ [ent_name c]) = Ok names s'
           \<and> entities s' = entities s1 \<and> observations s' = observations s1
           \<and> embeddings s' = embeddings s1"
      using Cons.prems(2) rest by (intro Cons.IH fresh1) (simp_all add: same)
    with True cr same show ?thesis by simp
  qed
qed

lemma set_order_by_desc: "set (order_by_desc key rows) = set rows"
  by (simp add: order_by_desc_def)

lemma detectAndCreateRelationships_ok:
  assumes "rel_fresh ev s"
    and "ent_id sourceEntity \<in> set (map ent_id (entities s))"
  shows "\<exists>names s'. detectAndCreateRelationships ev s sourceEntity content = Ok names s'
           \<and> entities s' = entities s \<and> observations s' = observations s
           \<and> embeddings s' = embeddings s"
proof -
  have "\<forall>c \<in> set (listEntities s None 500). ent_id c \<in> set (map ent_id (entities s))"
    by (auto simp: listEntities_def set_order_by_desc dest!: in_set_takeD)
  with assms show ?thesis
    unfolding detectAndCreateRelationships_def by (intro detect_loop_ok)
qed

lemma find_SomeD: "find P xs = Some x \<Longrightarrow> P x \<and> x \<in> set xs"
  by (induction xs) (auto split: if_splits)

lemma findOrCreateEntity_member:
  assumes "findOrCreateEntity ev s name type = Ok entity s1"
  shows "ent_id entity \<in> set (map ent_id (entities s1))"
proof (cases "findEntityByName s name")
  case None
  let ?i = "uuid_src ev (uuid_next s)"
  let ?s2 = "s\<lparr>uuid_next := Suc (uuid_next s),
               entities := entities s @
                 [\<lparr>ent_id = ?i, ent_name = name, ent_type = type,
                   ent_created_at = wall_clock s, ent_updated_at = wall_clock s\<rparr>]\<rparr>"
  from assms None have "findEntityById ?s2 ?i = Some entity" and "s1 = ?s2"
    by (auto simp: findOrCreateEntity_def randomUUID_def Let_def
          split: if_splits option.splits)
  then have "entity \<in> set (entities s1)"
    unfolding findEntityById_def by (auto dest: find_SomeD)
  then show ?thesis by simp
next
  case (Some e)
  with assms have "entity = e" and "s1 = s"
    by (simp_all add: findOrCreateEntity_def)
  moreover from Some have "e \<in> set (entities s)"
    by (auto simp: findEntityByName_def dest: find_SomeD)
  ultimately show ?thesis by simp
qed

lemma delete_pair_eq:
  "snd (deleteObservation (snd (deleteEmbedding s i)) i) = without_observations s {i}"
  by (simp add: deleteObservation_def deleteEmbedding_def without_observations_def)

lemma fresh_uuids_without:
  "fresh_uuids ev s \<Longrightarrow> fresh_uuids ev (without_observations s gone)"
  by (auto simp: fresh_uuids_def all_ids_def without_observations_def)

lemma store_new_observation_ok:
  assumes fresh: "fresh_uuids ev s"
    and ent: "ent_id entity \<in> set (map ent_id (entities s))"
  shows "\<exists>names s'.
           detectAndCreateRelationships ev
             (with_new_observation ev s (ent_id entity) (ri_content input) (ri_source input) vector)
             entity (ri_content input) = Ok names s'
           \<and> observations s' =
               observations (with_new_observation ev s (ent_id entity) (ri_content input)
                               (ri_source input) vector)
           \<and> embeddings s' =
               embeddings (with_new_observation ev s (ent_id entity) (ri_content input)
                             (ri_source input) vector)
           \<and> store_new_observation ev s entity input vector message replaced =
               Ok \<lparr>rr_success = True, rr_entityId = ent_id entity,
                   rr_entityName = ent_name entity,
                   rr_observationId = uuid_src ev (uuid_next s),
                   rr_relationships_created = names,
                   rr_message = message,
                   rr_deduplicated = None,
                   rr_replaced_observation = replaced\<rparr> s'"
proof -
  let ?s2 = "with_new_observation ev s (ent_id entity) (ri_content input) (ri_source input) vector"
  have "rel_fresh ev ?s2"
    using fresh_uuids_rel_fresh [OF fresh]
    by (rule rel_fresh_mono) (simp_all add: with_new_observation_def)
  moreover have "ent_id entity \<in> set (map ent_id (entities ?s2))"
    using ent by (simp add: with_new_observation_def touched_ids del: set_map)
  ultimately obtain names s' where
    d: "detectAndCreateRelationships ev ?s2 entity (ri_content input) = Ok names s'"
    and same: "observations s' = observations ?s2" "embeddings s' = embeddings ?s2"
    using detectAndCreateRelationships_ok by blast
  have "store_new_observation ev s entity input vector message replaced =
          Ok \<lparr>rr_success = True, rr_entityId = ent_id entity,
              rr_entityName = ent_name entity,
              rr_observationId = uuid_src ev (uuid_next s),
              rr_relationships_created = names,
              rr_message = message,
              rr_deduplicated = None,
              rr_replaced_observation = replaced\<rparr> s'"
    unfolding store_new_observation_def
    by (simp add: store_pair_ok [OF fresh ent] d) (simp add: inserted_observation_def)
  with d same show ?thesis by blast
qed

lemma joined_embeddings_entity:
  "x \<in> set (joined_embeddings s keep) \<Longrightarrow>
     \<exists>m \<in> set (embeddings s). keep m \<and> sv_entity_id x = emb_entity_id m
        \<and> sv_observation_id x = emb_observation_id m"
  by (auto simp: joined_embeddings_def)

lemma getEmbeddingsByEntity_entity:
  "i \<noteq> [] \<Longrightarrow> x \<in> set (getEmbeddingsByEntity s (Some i)) \<Longrightarrow> sv_entity_id x = i"
  by (auto simp: getEmbeddingsByEntity_def dest!: joined_embeddings_entity)

lemma findOrCreateEntity_cases:
  assumes "findOrCreateEntity ev s name type = Ok entity s1"
  shows "s1 = s
         \<or> (ent_id entity = uuid_src ev (uuid_next s)
            \<and> uuid_src ev (uuid_next s) \<notin> set (map ent_id (entities s))
            \<and> embeddings s1 = embeddings s)"
proof (cases "findEntityByName s name")
  case None
  let ?i = "uuid_src ev (uuid_next s)"
  let ?s2 = "s\<lparr>uuid_next := Suc (uuid_next s),
               entities := entities s @
                 [\<lparr>ent_id = ?i, ent_name = name, ent_type = type,
                   ent_created_at = wall_clock s, ent_updated_at = wall_clock s\<rparr>]\<rparr>"
  from assms None have "findEntityById ?s2 ?i = Some entity" and "s1 = ?s2"
    and "?i \<notin> set (map ent_id (entities s))"
    by (auto simp: findOrCreateEntity_def randomUUID_def Let_def
          split: if_splits option.splits)
  moreover from this(1) have "ent_id entity = ?i"
    unfolding findEntityById_def by (auto dest: find_SomeD)
  ultimately show ?thesis by simp
next
  case (Some e)
  with assms show ?thesis
    by (simp add: findOrCreateEntity_def)
qed

lemma store_new_observation_flag:
  "store_new_observation ev s entity input vector message replaced = Ok result s' \<Longrightarrow>
     rr_deduplicated result = None"
  by (auto simp: store_new_observation_def split: outcome.splits)

lemma fresh_uuids_store_k: "fresh_uuids env_fixed store_k"
  by (auto simp: fresh_uuids_def all_ids_def env_fixed_def store_k_def inj_on_def)

lemma foreign_keys_store_k: "foreign_keys_hold store_k"
  by (simp add: foreign_keys_hold_def store_k_def)

lemma existing_store_k:
  "getEmbeddingsByEntity store_k (Some ''e1'') =
     [\<lparr>sv_observation_id = ''o1'', sv_entity_id = ''e1'', sv_entity_name = ''k'',
       sv_entity_type = None, sv_content = ''abc'', sv_source = None,
       sv_created_at = ''t0'', sv_vector = [1, 0]\<rparr>]"
  by (simp add: getEmbeddingsByEntity_def joined_embeddings_def store_k_def)

lemma scan_store_k:
  "dedup_scan [1, 0] (getEmbeddingsByEntity store_k (Some ''e1'')) 0 None = Some (1, 0)"
  by (simp add: existing_store_k cosineSimilarity_def DEDUP_THRESHOLD_def)

lemma found_k:
  "findOrCreateEntity env_fixed store_k ''k'' None = Ok entity_k store_k"
  by (simp add: findOrCreateEntity_def findEntityByName_def store_k_def entity_k_def)

lemma env_fixed_embedding: "generateEmbedding env_fixed text = Inr [1, 0]"
  by (simp add: generateEmbedding_def env_fixed_def)

lemma env_fixed_toFixed: "number_toFixed env_fixed x digits = ''0.000''"
  by (simp add: env_fixed_def)

text \<open>
  C1. Let \<open>remember\<close> have found or created the entity and embedded the content. The
  vectors it scans are those stored for that entity. If none reaches 0.85 the scan
  finds no match. Otherwise the scan returns the best match: the stored vector of
  highest similarity among those reaching 0.85, the first such in scan order. If the
  content of that match is at least as long as the new content, \<open>remember\<close> returns
  \<open>deduplicated: true\<close> with the observation id of the match and the store as it was.
  Otherwise, the identifiers drawn being fresh, it deletes the observation of the match
  and its embedding, inserts the new observation and its embedding, runs the
  relationship detection on that store, and returns the old content of the match as
  \<open>replaced_observation\<close>.
\<close>

theorem remember_dedup_decision:
  assumes found: "findOrCreateEntity ev s
                    (if truthy (ri_entity input) then the (ri_entity input) else ''general'')
                    (ri_type input) = Ok entity s1"
    and emb: "generateEmbedding ev (ri_content input) = Inr vector"
  shows "(ent_id entity \<noteq> [] \<longrightarrow>
            (\<forall>x \<in> set (getEmbeddingsByEntity s1 (Some (ent_id entity))).
               sv_entity_id x = ent_id entity))
         \<and> (case dedup_scan vector (getEmbeddingsByEntity s1 (Some (ent_id entity))) 0 None of
              None \<Rightarrow>
                (\<forall>x \<in> set (getEmbeddingsByEntity s1 (Some (ent_id entity))).
                   cosineSimilarity vector (sv_vector x) < DEDUP_THRESHOLD)
            | Some (sim, i) \<Rightarrow>
                is_best_match vector (getEmbeddingsByEntity s1 (Some (ent_id entity))) sim i
                \<and> (let match = getEmbeddingsByEntity s1 (Some (ent_id entity)) ! i in
                    if length (ri_content input) \<le> length (sv_content match)
                    then (\<exists>message.
                           remember ev s input =
                             Ok \<lparr>rr_success = True, rr_entityId = ent_id entity,
                                 rr_entityName = ent_name entity,
                                 rr_observationId = sv_observation_id match,
                                 rr_relationships_created = [],
                                 rr_message = message,
                                 rr_deduplicated = Some True,
                                 rr_replaced_observation = None\<rparr> s1)
                    else fresh_uuids ev s1 \<longrightarrow>
                         (\<exists>names message s'.
                            detectAndCreateRelationships ev
                              (with_new_observation ev
                                 (without_observations s1 {sv_observation_id match})
                                 (ent_id entity) (ri_content input) (ri_source input) vector)
                              entity (ri_content input) = Ok names s'
                            \<and> observations s' =
                                filter (\<lambda>ob. obs_id ob \<noteq> sv_observation_id match) (observations s1)
                                @ [inserted_observation ev s1 (ent_id entity) (ri_content input)
                                     (ri_source input)]
                            \<and> embeddings s' =
                                filter (\<lambda>m. emb_observation_id m \<noteq> sv_observation_id match)
                                  (embeddings s1)
                                @ [inserted_embedding ev s1 (ent_id entity) vector
                                     (ri_content input)]
                            \<and> remember ev s input =
                                Ok \<lparr>rr_success = True, rr_entityId = ent_id entity,
                                    rr_entityName = ent_name entity,
                                    rr_observationId = uuid_src ev (uuid_next s1),
                                    rr_relationships_created = names,
                                    rr_message = message,
                                    rr_deduplicated = None,
                                    rr_replaced_observation = Some (sv_content match)\<rparr> s')))"
proof -
  let ?existing = "getEmbeddingsByEntity s1 (Some (ent_id entity))"
  have ids: "ent_id entity \<noteq> [] \<longrightarrow> (\<forall>x \<in> set ?existing. sv_entity_id x = ent_id entity)"
    by (auto dest: getEmbeddingsByEntity_entity)
  have inv: "scan_inv vector ?existing (dedup_scan vector ?existing 0 None)"
    by (rule dedup_scan_best)
  have member: "ent_id entity \<in> set (map ent_id (entities s1))"
    using found by (rule findOrCreateEntity_member)
  show ?thesis
  proof (cases "dedup_scan vector ?existing 0 None")
    case None
    with inv ids show ?thesis
      by (simp add: scan_inv_def)
  next
    case (Some b)
    obtain sim i where b: "b = (sim, i)" by (cases b)
    let ?match = "?existing ! i"
    from inv Some b have best: "is_best_match vector ?existing sim i"
      by (simp add: scan_inv_def)
    show ?thesis
    proof (cases "length (ri_content input) \<le> length (sv_content ?match)")
      case True
      with found emb Some b have "\<exists>message.
          remember ev s input =
            Ok \<lparr>rr_success = True, rr_entityId = ent_id entity,
                rr_entityName = ent_name entity,
                rr_observationId = sv_observation_id ?match,
                rr_relationships_created = [],
                rr_message = message,
                rr_deduplicated = Some True,
                rr_replaced_observation = None\<rparr> s1"
        by (simp add: remember_def Let_def)
      with True best ids Some b show ?thesis
        by (simp add: Let_def)
    next
      case False
      let ?s3 = "without_observations s1 {sv_observation_id ?match}"
      let ?message = "''Replaced shorter duplicate for \"'' @ ent_name entity
                        @ ''\" (similarity: '' @ number_toFixed ev sim 3 @ '')''"
      have rem: "remember ev s input =
                   store_new_observation ev ?s3 entity input vector ?message
                     (Some (sv_content ?match))"
        using found emb Some b False
        by (simp add: remember_def Let_def delete_pair_eq)
      have "\<exists>names message s'.
              detectAndCreateRelationships ev
                (with_new_observation ev ?s3 (ent_id entity) (ri_content input)
                   (ri_source input) vector)
                entity (ri_content input) = Ok names s'
              \<and> observations s' =
                  filter (\<lambda>ob. obs_id ob \<noteq> sv_observation_id ?match) (observations s1)
                  @ [inserted_observation ev s1 (ent_id entity) (ri_content input)
                       (ri_source input)]
              \<and> embeddings s' =
                  filter (\<lambda>m. emb_observation_id m \<noteq> sv_observation_id ?match) (embeddings s1)
                  @ [inserted_embedding ev s1 (ent_id entity) vector (ri_content input)]
              \<and> remember ev s input =
                  Ok \<lparr>rr_success = True, rr_entityId = ent_id entity,
                      rr_entityName = ent_name entity,
                      rr_observationId = uuid_src ev (uuid_next s1),
                      rr_relationships_created = names,
                      rr_message = message,
                      rr_deduplicated = None,
                      rr_replaced_observation = Some (sv_content ?match)\<rparr> s'"
        if fresh: "fresh_uuids ev s1"
      proof -
        have fresh3: "fresh_uuids ev ?s3"
          using fresh by (rule fresh_uuids_without)
        have member3: "ent_id entity \<in> set (map ent_id (entities ?s3))"
          using member by (simp add: without_observations_def)
        from store_new_observation_ok [OF fresh3 member3, of input vector ?message
            "Some (sv_content ?match)"]
        obtain names s' where
          d: "detectAndCreateRelationships ev
                (with_new_observation ev ?s3 (ent_id entity) (ri_content input)
                   (ri_source input) vector) entity (ri_content input) = Ok names s'"
          and o: "observations s' = observations
                (with_new_observation ev ?s3 (ent_id entity) (ri_content input)
                   (ri_source input) vector)"
          and e: "embeddings s' = embeddings
                (with_new_observation ev ?s3 (ent_id entity) (ri_content input)
                   (ri_source input) vector)"
          and r: "store_new_observation ev ?s3 entity input vector ?message
                    (Some (sv_content ?match)) =
                  Ok \<lparr>rr_success = True, rr_entityId = ent_id entity,
                      rr_entityName = ent_name entity,
                      rr_observationId = uuid_src ev (uuid_next ?s3),
                      rr_relationships_created = names,
                      rr_message = ?message,
                      rr_deduplicated = None,
                      rr_replaced_observation = Some (sv_content ?match)\<rparr> s'"
          by blast
        have "observations s' =
                filter (\<lambda>ob. obs_id ob \<noteq> sv_observation_id ?match) (observations s1)
                @ [inserted_observation ev s1 (ent_id entity) (ri_content input)
                     (ri_source input)]"
          using o by (simp add: with_new_observation_def without_observations_def
                inserted_observation_def)
        moreover have "embeddings s' =
                filter (\<lambda>m. emb_observation_id m \<noteq> sv_observation_id ?match) (embeddings s1)
                @ [inserted_embedding ev s1 (ent_id entity) vector (ri_content input)]"
          using e by (simp add: with_new_observation_def without_observations_def
                inserted_embedding_def)
        moreover have "uuid_next ?s3 = uuid_next s1"
          by (simp add: without_observations_def)
        ultimately show ?thesis
          using d r rem by auto
      qed
      with False best ids Some b show ?thesis
        by (simp add: Let_def)
    qed
  qed
qed

theorem remember_dedup_decision_witness:
  "(\<exists>message.
      remember env_fixed store_k remember_short =
        Ok \<lparr>rr_success = True, rr_entityId = ''e1'', rr_entityName = ''k'',
            rr_observationId = ''o1'', rr_relationships_created = [],
            rr_message = message, rr_deduplicated = Some True,
            rr_replaced_observation = None\<rparr> store_k)
   \<and> (\<exists>names message s'.
        remember env_fixed store_k remember_long =
          Ok \<lparr>rr_success = True, rr_entityId = ''e1'', rr_entityName = ''k'',
              rr_observationId = ''u'', rr_relationships_created = names,
              rr_message = message, rr_deduplicated = None,
              rr_replaced_observation = Some ''abc''\<rparr> s'
        \<and> map obs_content (observations s') = [''abcdef''])"
proof -
  have found_short:
    "findOrCreateEntity env_fixed store_k
       (if truthy (ri_entity remember_short) then the (ri_entity remember_short) else ''general'')
       (ri_type remember_short) = Ok entity_k store_k"
    by (simp add: remember_short_def found_k)
  have found_long:
    "findOrCreateEntity env_fixed store_k
       (if truthy (ri_entity remember_long) then the (ri_entity remember_long) else ''general'')
       (ri_type remember_long) = Ok entity_k store_k"
    by (simp add: remember_long_def found_k)
  have emb_short: "generateEmbedding env_fixed (ri_content remember_short) = Inr [1, 0]"
    by (simp add: generateEmbedding_def env_fixed_def)
  have emb_long: "generateEmbedding env_fixed (ri_content remember_long) = Inr [1, 0]"
    by (simp add: generateEmbedding_def env_fixed_def)
  have id: "ent_id entity_k = ''e1''" "ent_name entity_k = ''k''"
    by (simp_all add: entity_k_def)
  have short: "\<exists>message.
      remember env_fixed store_k remember_short =
        Ok \<lparr>rr_success = True, rr_entityId = ''e1'', rr_entityName = ''k'',
            rr_observationId = ''o1'', rr_relationships_created = [],
            rr_message = message, rr_deduplicated = Some True,
            rr_replaced_observation = None\<rparr> store_k"
    using remember_dedup_decision [OF found_short emb_short]
    by (simp only: id scan_store_k) (auto simp: existing_store_k remember_short_def)
  have long: "\<exists>names message s'.
        remember env_fixed store_k remember_long =
          Ok \<lparr>rr_success = True, rr_entityId = ''e1'', rr_entityName = ''k'',
              rr_observationId = ''u'', rr_relationships_created = names,
              rr_message = message, rr_deduplicated = None,
              rr_replaced_observation = Some ''abc''\<rparr> s'
        \<and> map obs_content (observations s') = [''abcdef'']"
  proof -
    have uuid0: "uuid_src env_fixed (uuid_next store_k) = ''u''"
      by (simp add: env_fixed_def store_k_def)
    have obs: "map obs_content (filter (\<lambda>ob. obs_id ob \<noteq> ''o1'') (observations store_k)) = []"
      by (simp add: store_k_def)
    show ?thesis
      using remember_dedup_decision [OF found_long emb_long] fresh_uuids_store_k
      by (simp only: id scan_store_k)
         (auto simp: existing_store_k remember_long_def inserted_observation_def uuid0 obs)
  qed
  from short long show ?thesis by simp
qed

text \<open>
  C9. When \<open>remember\<close> returns \<open>deduplicated: true\<close>, the store it leaves is the store
  it was called on: no row of any table is created, deleted or changed (so the
  \<open>updated_at\<close> of the entity stays), no identifier is drawn, and
  \<open>relationships_created\<close> is empty. The foreign keys of the schema hold in the store
  and identifiers are not empty.
\<close>

theorem remember_skip_leaves_store:
  assumes fk: "foreign_keys_hold s"
    and nonempty: "uuid_src ev (uuid_next s) \<noteq> []"
    and res: "remember ev s input = Ok result s'"
    and dedup: "rr_deduplicated result = Some True"
  shows "s' = s \<and> rr_relationships_created result = []
         \<and> rr_replaced_observation result = None"
proof -
  let ?name = "if truthy (ri_entity input) then the (ri_entity input) else ''general''"
  from res obtain entity s1 where
    found: "findOrCreateEntity ev s ?name (ri_type input) = Ok entity s1"
    by (cases "findOrCreateEntity ev s ?name (ri_type input)") (simp_all add: remember_def)
  from res found obtain vector where emb: "generateEmbedding ev (ri_content input) = Inr vector"
    by (cases "generateEmbedding ev (ri_content input)") (simp_all add: remember_def)
  let ?existing = "getEmbeddingsByEntity s1 (Some (ent_id entity))"
  have inv: "scan_inv vector ?existing (dedup_scan vector ?existing 0 None)"
    by (rule dedup_scan_best)
  from res found emb dedup obtain sim i where
    scan: "dedup_scan vector ?existing 0 None = Some (sim, i)"
    by (cases "dedup_scan vector ?existing 0 None")
      (auto simp: remember_def Let_def dest: store_new_observation_flag)
  with inv have "i < length ?existing"
    by (simp add: scan_inv_def is_best_match_def)
  then have nonempty_existing: "?existing \<noteq> []"
    by auto
  from res found emb dedup scan have skip:
    "s' = s1 \<and> rr_relationships_created result = [] \<and> rr_replaced_observation result = None"
    by (auto simp: remember_def Let_def delete_pair_eq split: if_splits
          dest: store_new_observation_flag)
  from findOrCreateEntity_cases [OF found] have "s1 = s"
  proof
    assume "s1 = s"
    then show ?thesis .
  next
    assume new: "ent_id entity = uuid_src ev (uuid_next s)
                 \<and> uuid_src ev (uuid_next s) \<notin> set (map ent_id (entities s))
                 \<and> embeddings s1 = embeddings s"
    from nonempty_existing obtain x where x: "x \<in> set ?existing"
      by (cases ?existing) auto
    with new nonempty obtain m where "m \<in> set (embeddings s1)" "emb_entity_id m = ent_id entity"
      by (auto simp: getEmbeddingsByEntity_def dest!: joined_embeddings_entity)
    with new fk have False
      unfolding foreign_keys_hold_def by (metis (no_types, lifting))
    then show ?thesis ..
  qed
  with skip show ?thesis by simp
qed

theorem remember_skip_leaves_store_witness:
  "foreign_keys_hold store_k
   \<and> uuid_src env_fixed (uuid_next store_k) \<noteq> []
   \<and> remember env_fixed store_k remember_short = Ok skipped_result store_k
   \<and> rr_deduplicated skipped_result = Some True
   \<and> rr_relationships_created skipped_result = []"
proof -
  have ne: "uuid_src env_fixed (uuid_next store_k) \<noteq> []"
    by (simp add: env_fixed_def)
  have r: "remember env_fixed store_k remember_short = Ok skipped_result store_k"
    by (simp add: remember_def remember_short_def found_k env_fixed_embedding
          env_fixed_toFixed entity_k_def existing_store_k cosineSimilarity_def
          DEDUP_THRESHOLD_def skipped_result_def Let_def)
  have d: "rr_deduplicated skipped_result = Some True"
    by (simp add: skipped_result_def)
  from remember_skip_leaves_store [OF foreign_keys_store_k ne r d] foreign_keys_store_k ne r d
  show ?thesis by simp
qed


section \<open>merge: validation, and the replacement of the originals\<close>

lemma find_filter_imp:
  "(\<And>x. Q x \<Longrightarrow> P x) \<Longrightarrow> find Q (filter P xs) = find Q xs"
  by (induction xs) auto

lemma getObservationsByIds_eq:
  "getObservationsByIds s ids =
     List.map_filter (\<lambda>i. find (\<lambda>ob. obs_id ob = i) (rev (observations s))) ids"
proof (cases "ids = []")
  case True
  then show ?thesis
    by (simp add: getObservationsByIds_def map_filter_simps)
next
  case False
  have "find (\<lambda>ob. obs_id ob = i) (rev (filter (\<lambda>ob. obs_id ob \<in> set ids) (observations s))) =
        find (\<lambda>ob. obs_id ob = i) (rev (observations s))" if "i \<in> set ids" for i
    using that unfolding rev_filter by (intro find_filter_imp) simp
  then have "List.map_filter
               (\<lambda>i. find (\<lambda>ob. obs_id ob = i)
                      (rev (filter (\<lambda>ob. obs_id ob \<in> set ids) (observations s)))) ids =
             List.map_filter (\<lambda>i. find (\<lambda>ob. obs_id ob = i) (rev (observations s))) ids"
    unfolding List.map_filter_def by (intro arg_cong2 [where f = map] filter_cong map_cong) auto
  with False show ?thesis
    by (simp add: getObservationsByIds_def Let_def)
qed

lemma getObservationsByIds_ids:
  "map obs_id (getObservationsByIds s ids) =
     filter (\<lambda>i. i \<in> set (map obs_id (observations s))) ids"
proof (induction ids)
  case Nil
  then show ?case
    by (simp add: getObservationsByIds_eq map_filter_simps)
next
  case (Cons i ids)
  show ?case
  proof (cases "find (\<lambda>ob. obs_id ob = i) (rev (observations s))")
    case None
    then have "i \<notin> set (map obs_id (observations s))"
      by (auto simp: find_None_iff)
    with None Cons show ?thesis
      by (simp add: getObservationsByIds_eq map_filter_simps)
  next
    case (Some ob)
    then have "obs_id ob = i" and "ob \<in> set (observations s)"
      by (auto dest: find_SomeD)
    then have "i \<in> set (map obs_id (observations s))"
      by auto
    with Some Cons \<open>obs_id ob = i\<close> show ?thesis
      by (simp add: getObservationsByIds_eq map_filter_simps)
  qed
qed

lemma getObservationsByIds_subset:
  "set (getObservationsByIds s ids) \<subseteq> set (observations s)"
proof
  fix ob
  assume "ob \<in> set (getObservationsByIds s ids)"
  then obtain i where "find (\<lambda>ob. obs_id ob = i) (rev (observations s)) = Some ob"
    by (auto simp: getObservationsByIds_eq List.map_filter_def)
  then have "ob \<in> set (rev (observations s))"
    by (auto dest: find_SomeD)
  then show "ob \<in> set (observations s)"
    by simp
qed

lemma delete_originals_eq:
  "delete_originals obs s = without_observations s (obs_id ` set obs)"
proof (induction obs arbitrary: s)
  case Nil
  then show ?case
    by (simp add: without_observations_def)
next
  case (Cons ob obs)
  have "without_observations (without_observations s {obs_id ob}) (obs_id ` set obs) =
        without_observations s (obs_id ` set (ob # obs))"
    by (auto simp: without_observations_def intro!: filter_cong)
  with Cons show ?case
    by (simp add: delete_pair_eq)
qed

lemma merge_missing_raises:
  assumes "\<not> set ids \<subseteq> set (map obs_id (observations s))"
  shows "\<exists>e. merge ev s \<lparr>mi_observation_ids = ids, mi_content = content\<rparr> = Raise e s"
proof -
  from assms obtain i where "i \<in> set ids" and "i \<notin> set (map obs_id (observations s))"
    by auto
  then have "i \<in> set (filter (\<lambda>i. i \<notin> set (map obs_id (getObservationsByIds s ids))) ids)"
    by (simp add: getObservationsByIds_ids del: set_map)
  then have "filter (\<lambda>i. i \<notin> set (map obs_id (getObservationsByIds s ids))) ids \<noteq> []"
    by (metis empty_iff empty_set)
  then show ?thesis
    by (simp add: merge_def Let_def)
qed

lemma merge_cross_entity_raises:
  assumes "1 < card (set (map obs_entity_id (getObservationsByIds s ids)))"
  shows "\<exists>e. merge ev s \<lparr>mi_observation_ids = ids, mi_content = content\<rparr> = Raise e s"
  using assms by (simp add: merge_def Let_def)

lemma merge_success:
  assumes nonempty: "ids \<noteq> []"
    and present: "set ids \<subseteq> set (map obs_id (observations s))"
    and one: "card (set (map obs_entity_id (getObservationsByIds s ids))) \<le> 1"
    and fk: "foreign_keys_hold s"
    and fresh: "fresh_uuids ev s"
    and emb: "generateEmbedding ev content = Inr vector"
  shows "map obs_id (getObservationsByIds s ids) = ids
         \<and> (\<exists>entity message s'.
               entity \<in> set (entities s)
               \<and> (\<forall>ob \<in> set (getObservationsByIds s ids). obs_entity_id ob = ent_id entity)
               \<and> merge ev s \<lparr>mi_observation_ids = ids, mi_content = content\<rparr> =
                   Ok \<lparr>mg_success = True,
                       mg_new_observation_id = uuid_src ev (uuid_next s),
                       mg_merged_count = length ids,
                       mg_entity_name = ent_name entity,
                       mg_message = message\<rparr> s'
               \<and> observations s' =
                   filter (\<lambda>ob. obs_id ob \<notin> set ids) (observations s)
                   @ [inserted_observation ev s (ent_id entity) content
                        (first_source (getObservationsByIds s ids))]
               \<and> embeddings s' =
                   filter (\<lambda>m. emb_observation_id m \<notin> set ids) (embeddings s)
                   @ [inserted_embedding ev s (ent_id entity) vector content]
               \<and> relationships s' = relationships s
               \<and> entities s' = touched s (ent_id entity))"
proof -
  let ?originals = "getObservationsByIds s ids"
  have ids: "map obs_id ?originals = ids"
    using present by (simp add: getObservationsByIds_ids filter_id_conv subset_iff del: set_map)
  then have found: "set (map obs_id ?originals) = set ids"
    by simp
  have no_missing: "filter (\<lambda>i. i \<notin> set (map obs_id ?originals)) ids = []"
    unfolding found by simp
  from ids nonempty obtain first others where orig: "?originals = first # others"
    by (cases ?originals) auto
  let ?eid = "obs_entity_id first"
  have "first \<in> set (observations s)"
    using getObservationsByIds_subset [of s ids] orig by auto
  with fk have eid_member: "?eid \<in> set (map ent_id (entities s))"
    by (simp add: foreign_keys_hold_def)
  then have "find (\<lambda>e. ent_id e = ?eid) (entities s) \<noteq> None"
    by (auto simp: find_None_iff)
  then obtain entity where ent: "findEntityById s ?eid = Some entity"
    by (auto simp: findEntityById_def)
  then have ent_id: "ent_id entity = ?eid" and ent_in: "entity \<in> set (entities s)"
    unfolding findEntityById_def by (auto dest: find_SomeD)
  have same: "\<forall>ob \<in> set ?originals. obs_entity_id ob = ent_id entity"
  proof
    fix ob
    assume "ob \<in> set ?originals"
    then have "obs_entity_id ob \<in> set (map obs_entity_id ?originals)"
      and "?eid \<in> set (map obs_entity_id ?originals)"
      using orig by auto
    moreover have "finite (set (map obs_entity_id ?originals))"
      by simp
    ultimately have "obs_entity_id ob = ?eid"
      using one by (metis card_le_Suc0_iff_eq One_nat_def)
    then show "obs_entity_id ob = ent_id entity"
      by (simp add: ent_id)
  qed
  let ?source = "first_source ?originals"
  let ?s2 = "with_new_observation ev s ?eid content ?source vector"
  let ?s' = "without_observations ?s2 (set ids)"
  let ?message = "''Merged '' @ string_of_nat (length ids) @ '' observations into one for \"''
                  @ ent_name entity @ ''\".''"
  have len: "length ?originals = length ids"
    using ids by (metis length_map)
  have del: "delete_originals ?originals ?s2 = ?s'"
    by (simp add: delete_originals_eq) (metis found set_map)
  have not_card: "\<not> 1 < card (set (map obs_entity_id ?originals))"
    using one by simp
  have m: "merge ev s \<lparr>mi_observation_ids = ids, mi_content = content\<rparr> =
             Ok \<lparr>mg_success = True,
                 mg_new_observation_id = uuid_src ev (uuid_next s),
                 mg_merged_count = length ids,
                 mg_entity_name = ent_name entity,
                 mg_message = ?message\<rparr> ?s'"
  proof -
    have src: "(case find (\<lambda>ob. obs_source ob \<noteq> None) (first # others) of
                  None \<Rightarrow> None | Some ob \<Rightarrow> obs_source ob) = ?source"
      by (simp only: first_source_def orig)
    have oid: "obs_id (inserted_observation ev s ?eid content ?source) = uuid_src ev (uuid_next s)"
      by (simp add: inserted_observation_def)
    show ?thesis
      unfolding merge_def Let_def
      using no_missing not_card [unfolded orig] ent emb
      by (simp only: orig list.case list.size src store_pair_ok [OF fresh eid_member]
            del [unfolded orig] len [unfolded orig, symmetric] outcome.case option.case
            sum.case merge_input.simps if_False oid list.map set_simps length_Cons
            less_irrefl [of 0] list.size(3))
         (simp add: inserted_observation_def)
  qed
  have new_id: "uuid_src ev (uuid_next s) \<notin> set ids"
    using fresh_uuidsD(2) [OF fresh order_refl] present by auto
  have obs: "observations ?s' =
               filter (\<lambda>ob. obs_id ob \<notin> set ids) (observations s)
               @ [inserted_observation ev s (ent_id entity) content ?source]"
    using new_id
    by (simp add: without_observations_def with_new_observation_def inserted_observation_def ent_id)
  have embs: "embeddings ?s' =
               filter (\<lambda>m. emb_observation_id m \<notin> set ids) (embeddings s)
               @ [inserted_embedding ev s (ent_id entity) vector content]"
    using new_id
    by (simp add: without_observations_def with_new_observation_def inserted_embedding_def ent_id)
  have rels: "relationships ?s' = relationships s"
    by (simp add: without_observations_def with_new_observation_def)
  have ents: "entities ?s' = touched s (ent_id entity)"
    by (simp add: without_observations_def with_new_observation_def ent_id)
  from ids ent_in same m obs embs rels ents show ?thesis
    by blast
qed

lemma originals_store_k:
  "getObservationsByIds store_k [''o1''] =
     [\<lparr>obs_id = ''o1'', obs_entity_id = ''e1'', obs_content = ''abc'',
       obs_source = None, obs_created_at = ''t0''\<rparr>]"
  by (simp add: getObservationsByIds_def store_k_def List.map_filter_def)

text \<open>
  C6, as the code has it. If a requested id has no row, or the rows fetched belong to
  more than one entity, \<open>merge\<close> raises and the store is the one it was called on.
  Otherwise, when at least one id is requested (and the foreign keys hold, the
  embedder answers and the identifiers drawn are fresh), the rows are fetched in the
  order of the request, and \<open>merge\<close> returns with a store in which every original
  observation and every embedding of one is gone, and one observation and one
  embedding are new: the observation carries the merged content, the entity of the
  originals and the first non-null source among them. With no id requested
  \<open>merge\<close> raises instead.
\<close>

theorem merge_all_or_nothing:
  "(\<not> set ids \<subseteq> set (map obs_id (observations s))
      \<or> 1 < card (set (map obs_entity_id (getObservationsByIds s ids)))
    \<longrightarrow> (\<exists>e. merge ev s \<lparr>mi_observation_ids = ids, mi_content = content\<rparr> = Raise e s))
   \<and> (ids \<noteq> [] \<and> set ids \<subseteq> set (map obs_id (observations s))
      \<and> card (set (map obs_entity_id (getObservationsByIds s ids))) \<le> 1
      \<and> foreign_keys_hold s \<and> fresh_uuids ev s \<and> generateEmbedding ev content = Inr vector
    \<longrightarrow> map obs_id (getObservationsByIds s ids) = ids
        \<and> (\<exists>entity message s'.
              entity \<in> set (entities s)
              \<and> (\<forall>ob \<in> set (getObservationsByIds s ids). obs_entity_id ob = ent_id entity)
              \<and> merge ev s \<lparr>mi_observation_ids = ids, mi_content = content\<rparr> =
                  Ok \<lparr>mg_success = True,
                      mg_new_observation_id = uuid_src ev (uuid_next s),
                      mg_merged_count = length ids,
                      mg_entity_name = ent_name entity,
                      mg_message = message\<rparr> s'
              \<and> observations s' =
                  filter (\<lambda>ob. obs_id ob \<notin> set ids) (observations s)
                  @ [inserted_observation ev s (ent_id entity) content
                       (first_source (getObservationsByIds s ids))]
              \<and> embeddings s' =
                  filter (\<lambda>m. emb_observation_id m \<notin> set ids) (embeddings s)
                  @ [inserted_embedding ev s (ent_id entity) vector content]
              \<and> relationships s' = relationships s
              \<and> entities s' = touched s (ent_id entity)))"
  using merge_missing_raises [of ids s ev content] merge_cross_entity_raises [of s ids ev content]
    merge_success [of ids s ev content vector]
  by blast

theorem merge_all_or_nothing_witness:
  "(\<exists>e. merge env_fixed store_k \<lparr>mi_observation_ids = [''o1'', ''zz''], mi_content = ''xyz''\<rparr> =
         Raise e store_k)
   \<and> (\<exists>message s'.
        merge env_fixed store_k \<lparr>mi_observation_ids = [''o1''], mi_content = ''xyz''\<rparr> =
          Ok \<lparr>mg_success = True, mg_new_observation_id = ''u'', mg_merged_count = 1,
              mg_entity_name = ''k'', mg_message = message\<rparr> s'
        \<and> map obs_content (observations s') = [''xyz'']
        \<and> map emb_observation_id (embeddings s') = [''u''])"
proof -
  have missing: "\<not> set [''o1'', ''zz''] \<subseteq> set (map obs_id (observations store_k))"
    by (simp add: store_k_def)
  have raise: "\<exists>e. merge env_fixed store_k
                      \<lparr>mi_observation_ids = [''o1'', ''zz''], mi_content = ''xyz''\<rparr> =
                    Raise e store_k"
    using merge_all_or_nothing [of "[''o1'', ''zz'']" store_k env_fixed "''xyz''"] missing
    by blast
  have hyps: "[''o1''] \<noteq> [] \<and> set [''o1''] \<subseteq> set (map obs_id (observations store_k))
              \<and> card (set (map obs_entity_id (getObservationsByIds store_k [''o1'']))) \<le> 1
              \<and> foreign_keys_hold store_k \<and> fresh_uuids env_fixed store_k
              \<and> generateEmbedding env_fixed ''xyz'' = Inr [1, 0]"
    by (simp add: originals_store_k foreign_keys_store_k fresh_uuids_store_k env_fixed_embedding)
       (simp add: store_k_def)
  have uuid0: "uuid_src env_fixed (uuid_next store_k) = ''u''"
    by (simp add: env_fixed_def store_k_def)
  have ents: "entity \<in> set (entities store_k) \<Longrightarrow> ent_name entity = ''k''" for entity
    by (auto simp: store_k_def)
  have obs: "filter (\<lambda>ob. obs_id ob \<noteq> ''o1'') (observations store_k) = []"
    by (simp add: store_k_def)
  have embs: "filter (\<lambda>m. emb_observation_id m \<noteq> ''o1'') (embeddings store_k) = []"
    by (simp add: store_k_def)
  from merge_all_or_nothing [of "[''o1'']" store_k env_fixed "''xyz''" "[1, 0]"] hyps
  obtain entity message s' where
    "entity \<in> set (entities store_k)"
    and "merge env_fixed store_k \<lparr>mi_observation_ids = [''o1''], mi_content = ''xyz''\<rparr> =
           Ok \<lparr>mg_success = True,
               mg_new_observation_id = uuid_src env_fixed (uuid_next store_k),
               mg_merged_count = length [''o1''],
               mg_entity_name = ent_name entity,
               mg_message = message\<rparr> s'"
    and "observations s' =
           filter (\<lambda>ob. obs_id ob \<notin> set [''o1'']) (observations store_k)
           @ [inserted_observation env_fixed store_k (ent_id entity) ''xyz''
                (first_source (getObservationsByIds store_k [''o1'']))]"
    and "embeddings s' =
           filter (\<lambda>m. emb_observation_id m \<notin> set [''o1'']) (embeddings store_k)
           @ [inserted_embedding env_fixed store_k (ent_id entity) [1, 0] ''xyz'']"
    by blast
  then have "\<exists>message s'.
        merge env_fixed store_k \<lparr>mi_observation_ids = [''o1''], mi_content = ''xyz''\<rparr> =
          Ok \<lparr>mg_success = True, mg_new_observation_id = ''u'', mg_merged_count = 1,
              mg_entity_name = ''k'', mg_message = message\<rparr> s'
        \<and> map obs_content (observations s') = [''xyz'']
        \<and> map emb_observation_id (embeddings s') = [''u'']"
    by (simp add: uuid0 ents obs embs inserted_observation_def inserted_embedding_def)
  with raise show ?thesis by blast
qed

text \<open>
  C6 as the specification words it fails on the empty request: no id is missing and
  the rows do not span two entities, yet no observation is created; the call raises.
\<close>

theorem merge_empty_counterexample:
  "set ([] :: ident list) \<subseteq> set (map obs_id (observations store_k))
   \<and> \<not> 1 < card (set (map obs_entity_id (getObservationsByIds store_k [])))
   \<and> merge env_fixed store_k \<lparr>mi_observation_ids = [], mi_content = ''abc''\<rparr> =
       Raise (TypeError ''Cannot read properties of undefined'') store_k"
  by (simp add: merge_def getObservationsByIds_def)


section \<open>Neighbourhood traversal: depths are hop distances\<close>

lemma related_rows_mem:
  "x \<in> set (related_rows s u) \<longleftrightarrow>
     (\<exists>r \<in> set (relationships s). \<exists>e \<in> set (entities s).
        (rel_from_entity r = u \<or> rel_to_entity r = u)
        \<and> ent_id e = (if rel_from_entity r = u then rel_to_entity r else rel_from_entity r)
        \<and> x = (ent_id e, ent_name e, ent_type e))"
  unfolding related_rows_def set_concat set_map
  by (simp only: UN_iff bex_simps if_distrib [of set] set_simps cong: if_cong)
     (fastforce split: if_splits)

lemma adjacent_iff:
  "adjacent s u v \<longleftrightarrow>
     (\<exists>r \<in> set (relationships s).
        (rel_from_entity r = u \<and> rel_to_entity r = v)
        \<or> (rel_to_entity r = u \<and> rel_from_entity r = v))
     \<and> v \<in> set (map ent_id (entities s))"
proof
  assume "adjacent s u v"
  then obtain x where "x \<in> set (related_rows s u)" and "v = fst x"
    by (auto simp: adjacent_def)
  then obtain r e where r: "r \<in> set (relationships s)" and e: "e \<in> set (entities s)"
    and "rel_from_entity r = u \<or> rel_to_entity r = u"
    and "ent_id e = (if rel_from_entity r = u then rel_to_entity r else rel_from_entity r)"
    and v: "v = ent_id e"
    unfolding related_rows_mem by fastforce
  moreover from e v have "v \<in> set (map ent_id (entities s))"
    by simp
  ultimately show "(\<exists>r \<in> set (relationships s).
        (rel_from_entity r = u \<and> rel_to_entity r = v)
        \<or> (rel_to_entity r = u \<and> rel_from_entity r = v))
     \<and> v \<in> set (map ent_id (entities s))"
    by (metis (full_types))
next
  assume "(\<exists>r \<in> set (relationships s).
        (rel_from_entity r = u \<and> rel_to_entity r = v)
        \<or> (rel_to_entity r = u \<and> rel_from_entity r = v))
     \<and> v \<in> set (map ent_id (entities s))"
  then obtain r e where r: "r \<in> set (relationships s)"
    and rv: "(rel_from_entity r = u \<and> rel_to_entity r = v)
             \<or> (rel_to_entity r = u \<and> rel_from_entity r = v)"
    and e: "e \<in> set (entities s)" "ent_id e = v"
    by auto
  from rv have "rel_from_entity r = u \<or> rel_to_entity r = u"
    and "ent_id e = (if rel_from_entity r = u then rel_to_entity r else rel_from_entity r)"
    using e(2) by auto
  with r e(1) have "(ent_id e, ent_name e, ent_type e) \<in> set (related_rows s u)"
    unfolding related_rows_mem by blast
  then have "fst (ent_id e, ent_name e, ent_type e) \<in> fst ` set (related_rows s u)"
    by (rule imageI)
  with e(2) show "adjacent s u v"
    by (simp add: adjacent_def)
qed

lemma adjacent_entity: "adjacent s u v \<Longrightarrow> v \<in> set (map ent_id (entities s))"
  by (simp add: adjacent_iff)

lemma hops_zero: "hops s seed 0 v \<Longrightarrow> v = seed"
  by (erule hops.cases) simp_all

lemma hops_Suc: "hops s seed (Suc k) v \<Longrightarrow> \<exists>u. hops s seed k u \<and> adjacent s u v"
  by (erule hops.cases) auto

lemma hop_distance_le: "hop_distance s seed v d \<Longrightarrow> hops s seed k v \<Longrightarrow> d \<le> k"
  unfolding hop_distance_def by (meson not_le)

lemma hop_distance_unique:
  "hop_distance s seed v d \<Longrightarrow> hop_distance s seed v d' \<Longrightarrow> d = d'"
  by (meson hop_distance_def hop_distance_le le_antisym)

lemma hop_distance_seed: "hop_distance s seed seed 0"
  by (simp add: hop_distance_def hops_start)

lemma bfs_invD:
  assumes "bfs_inv s seed M queue visited"
  shows "sorted (map snd queue)"
    and "\<And>x y. x \<in> set queue \<Longrightarrow> y \<in> set queue \<Longrightarrow> snd y \<le> Suc (snd x)"
    and "\<And>x. x \<in> set queue \<Longrightarrow> hops s seed (snd x) (fst x)"
    and "\<And>v info. visited v = Some info \<Longrightarrow>
           hop_distance s seed v (nb_depth info) \<and> nb_depth info \<le> M
           \<and> (v \<noteq> seed \<longrightarrow> entity_info s v info)"
    and "\<And>u info v. visited u = Some info \<Longrightarrow> nb_depth info < M \<Longrightarrow> adjacent s u v \<Longrightarrow>
           visited v \<noteq> None \<or> (v, Suc (nb_depth info)) \<in> set queue"
    and "visited seed \<noteq> None \<or> (queue = [(seed, 0)] \<and> visited = Map.empty)"
proof -
  note all = assms [unfolded bfs_inv_def]
  note a = all [THEN conjunct1]
  note b = all [THEN conjunct2, THEN conjunct1]
  note c = all [THEN conjunct2, THEN conjunct2, THEN conjunct1]
  note d = all [THEN conjunct2, THEN conjunct2, THEN conjunct2, THEN conjunct1]
  note e = all [THEN conjunct2, THEN conjunct2, THEN conjunct2, THEN conjunct2, THEN conjunct1]
  note f = all [THEN conjunct2, THEN conjunct2, THEN conjunct2, THEN conjunct2, THEN conjunct2]
  show "sorted (map snd queue)" by (rule a)
  show "\<And>x y. x \<in> set queue \<Longrightarrow> y \<in> set queue \<Longrightarrow> snd y \<le> Suc (snd x)"
    using b by blast
  show "\<And>x. x \<in> set queue \<Longrightarrow> hops s seed (snd x) (fst x)"
    using c by blast
  show "\<And>v info. visited v = Some info \<Longrightarrow>
           hop_distance s seed v (nb_depth info) \<and> nb_depth info \<le> M
           \<and> (v \<noteq> seed \<longrightarrow> entity_info s v info)"
    using d by blast
  show "\<And>u info v. visited u = Some info \<Longrightarrow> nb_depth info < M \<Longrightarrow> adjacent s u v \<Longrightarrow>
           visited v \<noteq> None \<or> (v, Suc (nb_depth info)) \<in> set queue"
    using e by blast
  show "visited seed \<noteq> None \<or> (queue = [(seed, 0)] \<and> visited = Map.empty)" by (rule f)
qed

lemma bfs_invI:
  assumes "sorted (map snd queue)"
    and "\<forall>x \<in> set queue. \<forall>y \<in> set queue. snd y \<le> Suc (snd x)"
    and "\<forall>x \<in> set queue. hops s seed (snd x) (fst x)"
    and "\<forall>v info. visited v = Some info \<longrightarrow>
           hop_distance s seed v (nb_depth info) \<and> nb_depth info \<le> M
           \<and> (v \<noteq> seed \<longrightarrow> entity_info s v info)"
    and "\<forall>u info v. visited u = Some info \<and> nb_depth info < M \<and> adjacent s u v \<longrightarrow>
           visited v \<noteq> None \<or> (v, Suc (nb_depth info)) \<in> set queue"
    and "visited seed \<noteq> None \<or> (queue = [(seed, 0)] \<and> visited = Map.empty)"
  shows "bfs_inv s seed M queue visited"
  unfolding bfs_inv_def using assms by (intro conjI)

lemma bfs_inv_skip:
  assumes inv: "bfs_inv s seed M ((c, d) # queue) visited"
    and skip: "visited c \<noteq> None \<or> M < d"
  shows "bfs_inv s seed M queue visited"
proof -
  have closure: "visited v \<noteq> None \<or> (v, Suc (nb_depth info)) \<in> set queue"
    if "visited u = Some info" "nb_depth info < M" "adjacent s u v" for u info v
  proof -
    from that have "visited v \<noteq> None \<or> (v, Suc (nb_depth info)) \<in> set ((c, d) # queue)"
      by (rule bfs_invD(5) [OF inv])
    with skip that(2) show ?thesis by auto
  qed
  have seed: "visited seed \<noteq> None"
  proof (rule ccontr)
    assume "\<not> visited seed \<noteq> None"
    with bfs_invD(6) [OF inv] have "(c, d) # queue = [(seed, 0)]" and "visited = Map.empty"
      by auto
    with skip show False by simp
  qed
  show ?thesis
  proof (rule bfs_invI)
    show "sorted (map snd queue)"
      using bfs_invD(1) [OF inv] by simp
    show "\<forall>x \<in> set queue. \<forall>y \<in> set queue. snd y \<le> Suc (snd x)"
      using bfs_invD(2) [OF inv] by simp
    show "\<forall>x \<in> set queue. hops s seed (snd x) (fst x)"
      using bfs_invD(3) [OF inv] by simp
    show "\<forall>v info. visited v = Some info \<longrightarrow>
           hop_distance s seed v (nb_depth info) \<and> nb_depth info \<le> M
           \<and> (v \<noteq> seed \<longrightarrow> entity_info s v info)"
      using bfs_invD(4) [OF inv] by blast
    show "\<forall>u info v. visited u = Some info \<and> nb_depth info < M \<and> adjacent s u v \<longrightarrow>
           visited v \<noteq> None \<or> (v, Suc (nb_depth info)) \<in> set queue"
      using closure by blast
    show "visited seed \<noteq> None \<or> (queue = [(seed, 0)] \<and> visited = Map.empty)"
      using seed by simp
  qed
qed

lemma bfs_no_shorter:
  assumes inv: "bfs_inv s seed M ((c, d) # queue) visited"
    and seed: "visited seed \<noteq> None"
    and bound: "d \<le> M"
    and walk: "hops s seed k v"
    and short: "k < d"
  shows "\<exists>info. visited v = Some info \<and> nb_depth info \<le> k"
  using walk short
proof (induction rule: hops.induct)
  case hops_start
  from seed obtain info where info: "visited seed = Some info"
    by auto
  then have "hop_distance s seed seed (nb_depth info)"
    using bfs_invD(4) [OF inv] by blast
  then have "nb_depth info = 0"
    using hop_distance_seed by (rule hop_distance_unique)
  with info show ?case by simp
next
  case (hops_step k u v)
  then obtain iu where iu: "visited u = Some iu" "nb_depth iu \<le> k"
    by auto
  with hops_step.prems bound have "nb_depth iu < M"
    by simp
  with iu(1) have "visited v \<noteq> None \<or> (v, Suc (nb_depth iu)) \<in> set ((c, d) # queue)"
    using hops_step.hyps(2) by (rule bfs_invD(5) [OF inv])
  moreover have "(v, Suc (nb_depth iu)) \<notin> set ((c, d) # queue)"
  proof
    assume mem: "(v, Suc (nb_depth iu)) \<in> set ((c, d) # queue)"
    have "sorted (map snd ((c, d) # queue))"
      by (rule bfs_invD(1) [OF inv])
    with mem have "d \<le> Suc (nb_depth iu)"
      by auto
    with iu(2) hops_step.prems show False by simp
  qed
  ultimately obtain iv where iv: "visited v = Some iv"
    by auto
  then have "hop_distance s seed v (nb_depth iv)"
    using bfs_invD(4) [OF inv] by blast
  moreover have "hops s seed (Suc k) v"
    using hops_step.hyps by (auto intro: hops.hops_step)
  ultimately have "nb_depth iv \<le> Suc k"
    by (rule hop_distance_le)
  with iv show ?case by simp
qed

lemma bfs_inv_visit:
  assumes inv: "bfs_inv s seed M ((c, d) # queue) visited"
    and unvisited: "visited c = None"
    and bound: "d \<le> M"
    and v1: "visited1 =
               (if c \<noteq> seed
                then (case find (\<lambda>e. ent_id e = c) (entities s) of
                        Some entity \<Rightarrow>
                          visited(c \<mapsto> \<lparr>nb_depth = d, nb_name = ent_name entity,
                                         nb_type = ent_type entity\<rparr>)
                      | None \<Rightarrow> visited)
                else visited(c \<mapsto> \<lparr>nb_depth = 0, nb_name = [], nb_type = None\<rparr>))"
    and q1: "queue1 =
               (if d < M
                then queue @ map (\<lambda>r. (fst r, d + 1))
                               (filter (\<lambda>r. visited1 (fst r) = None) (related_rows s c))
                else queue)"
  shows "bfs_inv s seed M queue1 visited1"
proof -
  note sorted = bfs_invD(1) [OF inv]
  note near = bfs_invD(2) [OF inv]
  note walks = bfs_invD(3) [OF inv]
  note sound = bfs_invD(4) [OF inv]
  note closed = bfs_invD(5) [OF inv]
  note init = bfs_invD(6) [OF inv]
  have walk_c: "hops s seed d c"
    using walks [of "(c, d)"] by simp
  have "\<exists>info. visited1 = visited(c \<mapsto> info) \<and> nb_depth info = d
          \<and> hop_distance s seed c d \<and> (c \<noteq> seed \<longrightarrow> entity_info s c info)"
  proof (cases "c = seed")
    case True
    with unvisited init have "d = 0"
      by auto
    with True v1 show ?thesis
      by (auto simp: hop_distance_seed)
  next
    case False
    with init have seed_visited: "visited seed \<noteq> None"
      by auto
    have "d \<noteq> 0"
    proof
      assume "d = 0"
      with walk_c have "c = seed"
        by (auto dest: hops_zero)
      with False show False ..
    qed
    then obtain k where "d = Suc k"
      by (cases d) auto
    with walk_c obtain u where "adjacent s u c"
      by (auto dest: hops_Suc)
    then have "c \<in> set (map ent_id (entities s))"
      by (rule adjacent_entity)
    then have "find (\<lambda>e. ent_id e = c) (entities s) \<noteq> None"
      by (auto simp: find_None_iff)
    then obtain e where e: "find (\<lambda>e. ent_id e = c) (entities s) = Some e"
      by auto
    have "\<not> hops s seed k' c" if "k' < d" for k'
    proof
      assume "hops s seed k' c"
      from bfs_no_shorter [OF inv seed_visited bound this that] unvisited
      show False by simp
    qed
    with walk_c have "hop_distance s seed c d"
      by (simp add: hop_distance_def)
    with False e v1 show ?thesis
      by (auto simp: entity_info_def)
  qed
  then obtain info where vis1: "visited1 = visited(c \<mapsto> info)"
    and depth: "nb_depth info = d"
    and dist: "hop_distance s seed c d"
    and ent: "c \<noteq> seed \<longrightarrow> entity_info s c info"
    by blast
  let ?new = "map (\<lambda>r. (fst r, d + 1))
                (filter (\<lambda>r. visited1 (fst r) = None) (related_rows s c))"
  have new_depth: "snd y = Suc d" if "y \<in> set ?new" for y
    using that by auto
  have new_adjacent: "adjacent s c (fst y)" if "y \<in> set ?new" for y
    using that by (force simp: adjacent_def image_iff)
  have q1_cases: "y \<in> set queue \<or> (d < M \<and> y \<in> set ?new)" if "y \<in> set queue1" for y
    using that q1 by (auto split: if_splits)
  have head_least: "d \<le> snd x" if "x \<in> set queue" for x
    using sorted that by auto
  have head_near: "snd x \<le> Suc d" if "x \<in> set queue" for x
    using near [of "(c, d)" x] that by simp
  have i1: "sorted (map snd queue1)"
  proof (cases "d < M")
    case False
    with q1 sorted show ?thesis by simp
  next
    case True
    have "sorted (map snd ?new)"
      by (simp add: comp_def sorted_wrt_iff_nth_less)
    moreover have "sorted (map snd queue)"
      using sorted by simp
    moreover have "\<forall>x \<in> set (map snd queue). \<forall>y \<in> set (map snd ?new). x \<le> y"
      using head_near by (auto simp: comp_def)
    ultimately have "sorted (map snd queue @ map snd ?new)"
      unfolding sorted_append by blast
    with True q1 show ?thesis by simp
  qed
  have i2: "\<forall>x \<in> set queue1. \<forall>y \<in> set queue1. snd y \<le> Suc (snd x)"
  proof (intro ballI)
    fix x y
    assume "x \<in> set queue1" and "y \<in> set queue1"
    then consider "x \<in> set queue" "y \<in> set queue" | "x \<in> set queue" "y \<in> set ?new"
      | "x \<in> set ?new" "y \<in> set queue" | "x \<in> set ?new" "y \<in> set ?new"
      using q1_cases by blast
    then show "snd y \<le> Suc (snd x)"
    proof cases
      case 1
      with near [of x y] show ?thesis by simp
    next
      case 2
      with head_least [of x] new_depth [of y] show ?thesis by simp
    next
      case 3
      with head_near [of y] new_depth [of x] show ?thesis by simp
    next
      case 4
      with new_depth [of x] new_depth [of y] show ?thesis by simp
    qed
  qed
  have i3: "\<forall>x \<in> set queue1. hops s seed (snd x) (fst x)"
  proof
    fix x
    assume "x \<in> set queue1"
    then consider "x \<in> set queue" | "x \<in> set ?new"
      using q1_cases by blast
    then show "hops s seed (snd x) (fst x)"
    proof cases
      case 1
      with walks [of x] show ?thesis by simp
    next
      case 2
      from walk_c new_adjacent [OF 2] have "hops s seed (Suc d) (fst x)"
        by (rule hops_step)
      with new_depth [OF 2] show ?thesis by simp
    qed
  qed
  have i4: "\<forall>v i. visited1 v = Some i \<longrightarrow>
              hop_distance s seed v (nb_depth i) \<and> nb_depth i \<le> M
              \<and> (v \<noteq> seed \<longrightarrow> entity_info s v i)"
  proof (intro allI impI)
    fix v i
    assume "visited1 v = Some i"
    then consider "v = c" "i = info" | "v \<noteq> c" "visited v = Some i"
      unfolding vis1 by (auto split: if_splits)
    then show "hop_distance s seed v (nb_depth i) \<and> nb_depth i \<le> M
               \<and> (v \<noteq> seed \<longrightarrow> entity_info s v i)"
    proof cases
      case 1
      with depth dist ent bound show ?thesis by simp
    next
      case 2
      with sound [of v i] show ?thesis by simp
    qed
  qed
  have i5: "\<forall>u i v. visited1 u = Some i \<and> nb_depth i < M \<and> adjacent s u v \<longrightarrow>
              visited1 v \<noteq> None \<or> (v, Suc (nb_depth i)) \<in> set queue1"
  proof (intro allI impI)
    fix u i v
    assume a: "visited1 u = Some i \<and> nb_depth i < M \<and> adjacent s u v"
    then consider "u = c" "i = info" | "u \<noteq> c" "visited u = Some i"
      unfolding vis1 by (auto split: if_splits)
    then show "visited1 v \<noteq> None \<or> (v, Suc (nb_depth i)) \<in> set queue1"
    proof cases
      case 1
      with a depth have less: "d < M" and adj: "adjacent s c v"
        by simp_all
      show ?thesis
      proof (cases "visited1 v = None")
        case False
        then show ?thesis by simp
      next
        case True
        from adj obtain row where "row \<in> set (related_rows s c)" "fst row = v"
          by (auto simp: adjacent_def)
        with True have "row \<in> set (filter (\<lambda>r. visited1 (fst r) = None) (related_rows s c))"
          by simp
        then have "(fst row, d + 1) \<in> set ?new"
          unfolding set_map by (rule imageI)
        with \<open>fst row = v\<close> have "(v, d + 1) \<in> set ?new"
          by simp
        with less q1 1 depth show ?thesis by simp
      qed
    next
      case 2
      with a closed [of u i v]
      have "visited v \<noteq> None \<or> (v, Suc (nb_depth i)) \<in> set ((c, d) # queue)"
        by simp
      then consider "visited v \<noteq> None" | "v = c" | "(v, Suc (nb_depth i)) \<in> set queue"
        by auto
      then show ?thesis
      proof cases
        case 1
        then show ?thesis
          unfolding vis1 by auto
      next
        case 2
        then show ?thesis
          unfolding vis1 by simp
      next
        case 3
        then show ?thesis
          using q1 by (auto split: if_splits)
      qed
    qed
  qed
  have i6: "visited1 seed \<noteq> None"
    using init unvisited unfolding vis1 by auto
  from i1 i2 i3 i4 i5 show ?thesis
    by (rule bfs_invI) (simp add: i6)
qed

lemma bfs_loop_inv:
  "bfs_inv s seed M queue visited \<Longrightarrow> bfs_inv s seed M [] (bfs_loop s seed M queue visited)"
proof (induction s seed M queue visited rule: bfs_loop.induct)
  case (1 s entityId maxDepth visited)
  then show ?case by simp
next
  case (2 s entityId maxDepth cid depth queue visited)
  show ?case
  proof (cases "visited cid \<noteq> None \<or> maxDepth < depth")
    case True
    with "2.prems" have "bfs_inv s entityId maxDepth queue visited"
      by (rule bfs_inv_skip)
    with True have "bfs_inv s entityId maxDepth [] (bfs_loop s entityId maxDepth queue visited)"
      by (intro "2.IH"(1))
    moreover have "bfs_loop s entityId maxDepth ((cid, depth) # queue) visited =
                   bfs_loop s entityId maxDepth queue visited"
      by (subst bfs_loop.simps(2)) (simp only: True if_True)
    ultimately show ?thesis by (simp only:)
  next
    case False
    define visited1 where "visited1 =
               (if cid \<noteq> entityId
                then (case find (\<lambda>e. ent_id e = cid) (entities s) of
                        Some entity \<Rightarrow>
                          visited(cid \<mapsto> \<lparr>nb_depth = depth, nb_name = ent_name entity,
                                           nb_type = ent_type entity\<rparr>)
                      | None \<Rightarrow> visited)
                else visited(cid \<mapsto> \<lparr>nb_depth = 0, nb_name = [], nb_type = None\<rparr>))"
    define queue1 where "queue1 =
               (if depth < maxDepth
                then queue @ map (\<lambda>r. (fst r, depth + 1))
                               (filter (\<lambda>r. visited1 (fst r) = None) (related_rows s cid))
                else queue)"
    from False have "visited cid = None" and "depth \<le> maxDepth"
      by auto
    with "2.prems" have step: "bfs_inv s entityId maxDepth queue1 visited1"
      using visited1_def queue1_def by (rule bfs_inv_visit)
    have "bfs_inv s entityId maxDepth [] (bfs_loop s entityId maxDepth queue1 visited1)"
      using False visited1_def queue1_def step by (rule "2.IH"(2))
    moreover have "bfs_loop s entityId maxDepth ((cid, depth) # queue) visited =
                   bfs_loop s entityId maxDepth queue1 visited1"
      unfolding visited1_def queue1_def
      by (subst bfs_loop.simps(2)) (simp only: False if_False Let_def)
    ultimately show ?thesis by (simp only:)
  qed
qed

lemma bfs_inv_initial: "bfs_inv s seed M [(seed, 0)] Map.empty"
  by (rule bfs_invI) (simp_all add: hops_start)

lemma bfs_inv_final:
  "bfs_inv s seed M [] (bfs_loop s seed M [(seed, 0)] Map.empty)"
  using bfs_inv_initial by (rule bfs_loop_inv)

lemma bfs_complete:
  assumes inv: "bfs_inv s seed M [] visited"
    and walk: "hops s seed k v"
    and bound: "k \<le> M"
  shows "\<exists>info. visited v = Some info \<and> nb_depth info \<le> k"
  using walk bound
proof (induction rule: hops.induct)
  case hops_start
  from bfs_invD(6) [OF inv] obtain info where info: "visited seed = Some info"
    by auto
  then have "hop_distance s seed seed (nb_depth info)"
    using bfs_invD(4) [OF inv] by blast
  then have "nb_depth info = 0"
    using hop_distance_seed by (rule hop_distance_unique)
  with info show ?case by simp
next
  case (hops_step k u v)
  then obtain iu where iu: "visited u = Some iu" "nb_depth iu \<le> k"
    by auto
  with hops_step.prems have "nb_depth iu < M"
    by simp
  with iu(1) have "visited v \<noteq> None \<or> (v, Suc (nb_depth iu)) \<in> set []"
    using hops_step.hyps(2) by (rule bfs_invD(5) [OF inv])
  then obtain iv where iv: "visited v = Some iv"
    by auto
  then have "hop_distance s seed v (nb_depth iv)"
    using bfs_invD(4) [OF inv] by blast
  moreover have "hops s seed (Suc k) v"
    using hops_step.hyps by (auto intro: hops.hops_step)
  ultimately have "nb_depth iv \<le> Suc k"
    by (rule hop_distance_le)
  with iv show ?case by simp
qed

lemma entity_info_unique:
  assumes "entity_info s v i" and "entity_info s v j" and "nb_depth i = nb_depth j"
  shows "i = j"
  using assms by (cases i, cases j) (auto simp: entity_info_def)

lemma getRelatedEntities_zero: "getRelatedEntities s seed 0 = Map.empty"
  by (simp add: getRelatedEntities_def Let_def)

lemma related_abc:
  "related_rows store_abc ''ea'' = [(''eb'', ''b'', Some ''person'')]"
  "related_rows store_abc ''eb'' = [(''ea'', ''a'', None), (''ec'', ''c'', None)]"
  "related_rows store_abc ''ec'' = [(''eb'', ''b'', Some ''person'')]"
  by (simp_all add: related_rows_def store_abc_def)

lemma find_abc:
  "find (\<lambda>e. ent_id e = ''eb'') (entities store_abc) =
     Some \<lparr>ent_id = ''eb'', ent_name = ''b'', ent_type = Some ''person'',
           ent_created_at = ''t0'', ent_updated_at = ''t0''\<rparr>"
  "find (\<lambda>e. ent_id e = ''ec'') (entities store_abc) =
     Some \<lparr>ent_id = ''ec'', ent_name = ''c'', ent_type = None,
           ent_created_at = ''t0'', ent_updated_at = ''t0''\<rparr>"
  by (simp_all add: store_abc_def)

lemma related_abc_c:
  "getRelatedEntities store_abc ''ea'' 2 ''ec'' =
     Some \<lparr>nb_depth = 2, nb_name = ''c'', nb_type = None\<rparr>"
  by (simp add: getRelatedEntities_def related_abc find_abc Let_def numeral_2_eq_2)

text \<open>
  C5. The seed is never in the result, and with \<open>maxDepth = 0\<close> the result is empty.
  An entity other than the seed is in the result exactly when its hop distance from the
  seed is at most \<open>maxDepth\<close>, and it is recorded once, with that distance as its
  depth and the name and type of its entity row. Adjacency does not depend on the
  direction of a relationship: \<open>w\<close> is adjacent to \<open>u\<close> when some relationship joins
  the two, either way round, and \<open>w\<close> has an entity row.
\<close>

theorem getRelatedEntities_distances:
  "getRelatedEntities s seed maxDepth seed = None
   \<and> getRelatedEntities s seed 0 = Map.empty
   \<and> (getRelatedEntities s seed maxDepth v = Some info \<longleftrightarrow>
        v \<noteq> seed \<and> hop_distance s seed v (nb_depth info) \<and> nb_depth info \<le> maxDepth
        \<and> entity_info s v info)
   \<and> (adjacent s u w \<longleftrightarrow>
        (\<exists>r \<in> set (relationships s).
           (rel_from_entity r = u \<and> rel_to_entity r = w)
           \<or> (rel_to_entity r = u \<and> rel_from_entity r = w))
        \<and> w \<in> set (map ent_id (entities s)))"
proof -
  let ?visited = "bfs_loop s seed maxDepth [(seed, 0)] Map.empty"
  note inv = bfs_inv_final [of s seed maxDepth]
  have result: "getRelatedEntities s seed maxDepth v = (if v = seed then None else ?visited v)"
    by (simp add: getRelatedEntities_def)
  have forward: "hop_distance s seed v (nb_depth info) \<and> nb_depth info \<le> maxDepth
                 \<and> entity_info s v info"
    if "v \<noteq> seed" "?visited v = Some info"
    using bfs_invD(4) [OF inv that(2)] that(1) by simp
  have backward: "?visited v = Some info"
    if "v \<noteq> seed" and dist: "hop_distance s seed v (nb_depth info)"
      and "nb_depth info \<le> maxDepth" and ent: "entity_info s v info"
  proof -
    from dist have "hops s seed (nb_depth info) v"
      by (simp add: hop_distance_def)
    from bfs_complete [OF inv this that(3)] obtain i where i: "?visited v = Some i"
      by blast
    from bfs_invD(4) [OF inv i] that(1)
    have "hop_distance s seed v (nb_depth i)" and "entity_info s v i"
      by simp_all
    with dist ent have "i = info"
      by (auto intro: entity_info_unique dest: hop_distance_unique)
    with i show ?thesis by simp
  qed
  have "getRelatedEntities s seed maxDepth v = Some info \<longleftrightarrow>
        v \<noteq> seed \<and> hop_distance s seed v (nb_depth info) \<and> nb_depth info \<le> maxDepth
        \<and> entity_info s v info"
    unfolding result using forward backward by auto
  moreover have "getRelatedEntities s seed maxDepth seed = None"
    by (simp add: getRelatedEntities_def)
  ultimately show ?thesis
    using getRelatedEntities_zero [of s seed] adjacent_iff [of s u w] by blast
qed

theorem getRelatedEntities_distances_witness:
  "getRelatedEntities store_abc ''ea'' 2 ''ec'' =
     Some \<lparr>nb_depth = 2, nb_name = ''c'', nb_type = None\<rparr>
   \<and> hop_distance store_abc ''ea'' ''ec'' 2
   \<and> adjacent store_abc ''eb'' ''ec''"
proof -
  have r: "\<exists>r \<in> set (relationships store_abc).
             (rel_from_entity r = ''eb'' \<and> rel_to_entity r = ''ec'')
             \<or> (rel_to_entity r = ''eb'' \<and> rel_from_entity r = ''ec'')"
    by (simp add: store_abc_def)
  have e: "''ec'' \<in> set (map ent_id (entities store_abc))"
    by (simp add: store_abc_def)
  from getRelatedEntities_distances [of store_abc "''ea''" 2 "''ec''"
      "\<lparr>nb_depth = 2, nb_name = ''c'', nb_type = None\<rparr>" "''eb''" "''ec''"]
    related_abc_c r e
  show ?thesis by simp
qed


section \<open>consolidate: clusters are the connected components\<close>

lemma root_of_unique: "root_of p i r \<Longrightarrow> root_of p i r' \<Longrightarrow> r = r'"
proof (induction arbitrary: r' rule: root_of.induct)
  case (root_here i)
  from root_here.prems root_here.hyps show ?case
    by (cases rule: root_of.cases) auto
next
  case (root_up i r)
  from root_up.prems root_up.hyps(1) have "root_of p (p ! i) r'"
    by (cases rule: root_of.cases) auto
  then show ?case
    by (rule root_up.IH)
qed

lemma root_of_is_root: "root_of p i r \<Longrightarrow> p ! r = r"
  by (induction rule: root_of.induct) auto

lemma root_of_bound:
  assumes "uf_ok n u" and "root_of (uf_parent u) i r" and "i < n"
  shows "r < n"
  using assms(2,3)
proof (induction rule: root_of.induct)
  case (root_here i)
  then show ?case by simp
next
  case (root_up i r)
  with assms(1) show ?case
    by (simp add: uf_ok_def)
qed

lemma rank_below_root:
  assumes "uf_ok n u" and "root_of (uf_parent u) i r" and "i < n" and "i \<noteq> r"
  shows "uf_rank u ! i < uf_rank u ! r"
  using assms(2,3,4)
proof (induction rule: root_of.induct)
  case (root_here i)
  then show ?case by simp
next
  case (root_up i r)
  from assms(1) root_up.hyps(1) root_up.prems(1)
  have step: "uf_rank u ! i < uf_rank u ! (uf_parent u ! i)" and next_in: "uf_parent u ! i < n"
    by (simp_all add: uf_ok_def)
  show ?case
  proof (cases "uf_parent u ! i = r")
    case True
    with step show ?thesis by simp
  next
    case False
    with root_up.IH next_in have "uf_rank u ! (uf_parent u ! i) < uf_rank u ! r"
      by simp
    with step show ?thesis by simp
  qed
qed

lemma rank_le_Max:
  assumes "uf_ok n u" and "i < n"
  shows "uf_rank u ! i \<le> Max (set (uf_rank u))"
proof -
  from assms have "uf_rank u ! i \<in> set (uf_rank u)"
    by (simp add: uf_ok_def)
  then show ?thesis by simp
qed

lemma compress_keeps_roots:
  assumes x: "root_of p x r" and len: "x < length p" and i: "root_of p i ri"
  shows "root_of (p[x := r]) i ri"
  using i
proof (induction rule: root_of.induct)
  case (root_here i)
  show ?case
  proof (cases "i = x")
    case True
    with root_here have "root_of p x x"
      by (auto intro: root_of.root_here)
    with x have "r = x"
      by (rule root_of_unique)
    with True root_here len show ?thesis
      by (auto intro: root_of.root_here)
  next
    case False
    with root_here show ?thesis
      by (auto intro: root_of.root_here)
  qed
next
  case (root_up i ri)
  show ?case
  proof (cases "i = x")
    case False
    with root_up show ?thesis
      by (auto intro: root_of.root_up)
  next
    case True
    have "root_of p x ri"
      using True root_up.hyps by (auto intro: root_of.root_up)
    with x have eq: "r = ri"
      by (rule root_of_unique)
    have "p ! r = r"
      using x by (rule root_of_is_root)
    with True root_up.hyps(1) have "r \<noteq> x"
      by auto
    with \<open>p ! r = r\<close> have "root_of (p[x := r]) r r"
      by (auto intro: root_of.root_here)
    moreover have "p[x := r] ! x = r"
      using len by simp
    ultimately have "root_of (p[x := r]) x r"
      using \<open>r \<noteq> x\<close> by (auto intro: root_of.root_up)
    with True eq show ?thesis by simp
  qed
qed

lemma roots_kept_refl: "roots_kept u u"
  by (simp add: roots_kept_def)

lemma roots_kept_trans: "roots_kept u u1 \<Longrightarrow> roots_kept u1 u2 \<Longrightarrow> roots_kept u u2"
  by (simp add: roots_kept_def)

lemma uf_find_correct:
  assumes ok: "uf_ok n u" and x: "x < n"
  shows "\<exists>r u'. uf_find u x = Some (r, u') \<and> root_of (uf_parent u) x r \<and> uf_ok n u'
           \<and> uf_rank u' = uf_rank u \<and> roots_kept u u'"
  using x
proof (induction "Max (set (uf_rank u)) - uf_rank u ! x" arbitrary: x rule: less_induct)
  case less
  show ?case
  proof (cases "uf_parent u ! x = x")
    case True
    then have "uf_find u x = Some (x, u)"
      by (subst uf_find.simps) simp
    moreover from True have "root_of (uf_parent u) x x"
      by (rule root_here)
    ultimately show ?thesis
      using ok by (auto simp: roots_kept_refl)
  next
    case False
    let ?y = "uf_parent u ! x"
    from ok less.prems have y: "?y < n"
      by (simp add: uf_ok_def)
    from ok less.prems False have "uf_rank u ! x < uf_rank u ! ?y"
      by (simp add: uf_ok_def)
    moreover have "uf_rank u ! ?y \<le> Max (set (uf_rank u))"
      using ok y by (rule rank_le_Max)
    ultimately have "Max (set (uf_rank u)) - uf_rank u ! ?y < Max (set (uf_rank u)) - uf_rank u ! x"
      by simp
    from less.hyps [OF this y] obtain r u1 where
      f1: "uf_find u ?y = Some (r, u1)" and r1: "root_of (uf_parent u) ?y r"
      and ok1: "uf_ok n u1" and rank1: "uf_rank u1 = uf_rank u" and kept1: "roots_kept u u1"
      by blast
    let ?u' = "u1\<lparr>uf_parent := (uf_parent u1)[x := r]\<rparr>"
    have find: "uf_find u x = Some (r, ?u')"
      by (subst uf_find.simps) (simp add: False f1)
    have root: "root_of (uf_parent u) x r"
      using False r1 by (rule root_up)
    then have root1: "root_of (uf_parent u1) x r"
      using kept1 by (simp add: roots_kept_def)
    have r_bound: "r < n"
      using ok root less.prems by (rule root_of_bound)
    have len1: "x < length (uf_parent u1)"
      using ok1 less.prems by (simp add: uf_ok_def)
    have kept': "roots_kept u1 ?u'"
      unfolding roots_kept_def using compress_keeps_roots [OF root1 len1] by simp
    have ok': "uf_ok n ?u'"
      unfolding uf_ok_def
    proof (intro conjI allI impI)
      show "length (uf_parent ?u') = n" "length (uf_rank ?u') = n"
        using ok1 by (simp_all add: uf_ok_def)
    next
      fix i assume "i < n"
      with ok1 r_bound len1 show "uf_parent ?u' ! i < n"
        by (cases "i = x") (simp_all add: uf_ok_def)
    next
      fix i assume i: "i < n" and np: "uf_parent ?u' ! i \<noteq> i"
      show "uf_rank ?u' ! i < uf_rank ?u' ! (uf_parent ?u' ! i)"
      proof (cases "i = x")
        case True
        with np len1 have "x \<noteq> r"
          by auto
        with rank_below_root [OF ok root less.prems] True len1 rank1 show ?thesis
          by simp
      next
        case False
        with ok1 i np show ?thesis
          by (simp add: uf_ok_def)
      qed
    qed
    from find root ok' rank1 roots_kept_trans [OF kept1 kept'] show ?thesis
      by auto
  qed
qed

lemma root_exists:
  assumes "uf_ok n u" and "i < n"
  shows "\<exists>r. root_of (uf_parent u) i r \<and> r < n"
  using uf_find_correct [OF assms] root_of_bound [OF assms(1) _ assms(2)] by blast

lemma roots_kept_iff:
  assumes ok: "uf_ok n u" and kept: "roots_kept u u'" and i: "i < n"
  shows "root_of (uf_parent u') i r \<longleftrightarrow> root_of (uf_parent u) i r"
proof
  assume "root_of (uf_parent u) i r"
  with kept show "root_of (uf_parent u') i r"
    by (simp add: roots_kept_def)
next
  assume r: "root_of (uf_parent u') i r"
  from root_exists [OF ok i] obtain r0 where r0: "root_of (uf_parent u) i r0"
    by blast
  with kept have "root_of (uf_parent u') i r0"
    by (simp add: roots_kept_def)
  with r have "r = r0"
    by (rule root_of_unique)
  with r0 show "root_of (uf_parent u) i r"
    by simp
qed

lemma roots_kept_same:
  assumes "uf_ok n u" and "roots_kept u u'" and "i < n" and "j < n"
  shows "uf_same u' i j \<longleftrightarrow> uf_same u i j"
  unfolding uf_same_def
  using roots_kept_iff [OF assms(1,2,3)] roots_kept_iff [OF assms(1,2,4)] by simp

lemma uf_same_root:
  assumes "root_of (uf_parent u) i ri" and "root_of (uf_parent u) j rj"
  shows "uf_same u i j \<longleftrightarrow> ri = rj"
  unfolding uf_same_def using assms by (auto dest: root_of_unique)

lemma link_roots:
  assumes a: "p ! a = a" and b: "p ! b = b" and ab: "a \<noteq> b" and len: "a < length p"
    and i: "root_of p i ri"
  shows "root_of (p[a := b]) i (if ri = a then b else ri)"
  using i
proof (induction rule: root_of.induct)
  case (root_here i)
  show ?case
  proof (cases "i = a")
    case True
    have "root_of (p[a := b]) b b"
      using b ab by (auto intro: root_of.root_here)
    moreover have "p[a := b] ! a = b"
      using len by simp
    ultimately have "root_of (p[a := b]) a b"
      using ab by (auto intro: root_of.root_up)
    with True show ?thesis by simp
  next
    case False
    with root_here show ?thesis
      by (auto intro: root_of.root_here)
  qed
next
  case (root_up i ri)
  from root_up.hyps(1) a have "i \<noteq> a"
    by auto
  with root_up show ?case
    by (auto intro: root_of.root_up)
qed

lemma uf_link_ok:
  assumes ok: "uf_ok n u" and a: "a < n" and b: "b < n"
    and ra: "uf_parent u ! a = a" and rb: "uf_parent u ! b = b" and ab: "a \<noteq> b"
    and len: "length rk = n" and up: "rk ! a < rk ! b"
    and same: "\<forall>k < n. k \<noteq> b \<longrightarrow> rk ! k = uf_rank u ! k"
    and grow: "uf_rank u ! b \<le> rk ! b"
  shows "uf_ok n (u\<lparr>uf_parent := (uf_parent u)[a := b], uf_rank := rk\<rparr>)"
  unfolding uf_ok_def
proof (intro conjI allI impI)
  let ?u' = "u\<lparr>uf_parent := (uf_parent u)[a := b], uf_rank := rk\<rparr>"
  show "length (uf_parent ?u') = n" "length (uf_rank ?u') = n"
    using ok len by (simp_all add: uf_ok_def)
  fix i assume i: "i < n"
  from ok a have la: "a < length (uf_parent u)"
    by (simp add: uf_ok_def)
  from ok i b la show "uf_parent ?u' ! i < n"
    by (cases "i = a") (simp_all add: uf_ok_def)
  assume np: "uf_parent ?u' ! i \<noteq> i"
  show "uf_rank ?u' ! i < uf_rank ?u' ! (uf_parent ?u' ! i)"
  proof (cases "i = a")
    case True
    with la up show ?thesis by simp
  next
    case False
    with np have np0: "uf_parent u ! i \<noteq> i"
      by simp
    with rb have "i \<noteq> b"
      by auto
    with same i have ri: "rk ! i = uf_rank u ! i"
      by simp
    from ok i np0 have lt: "uf_rank u ! i < uf_rank u ! (uf_parent u ! i)"
      and pn: "uf_parent u ! i < n"
      by (simp_all add: uf_ok_def)
    have "uf_rank u ! (uf_parent u ! i) \<le> rk ! (uf_parent u ! i)"
      using same pn grow by (cases "uf_parent u ! i = b") simp_all
    with lt ri False show ?thesis by simp
  qed
qed

lemma uf_union_correct:
  assumes ok: "uf_ok n u" and x: "x < n" and y: "y < n"
  shows "\<exists>u'. uf_union u x y = Some u' \<and> uf_ok n u'
           \<and> (\<forall>i < n. \<forall>j < n.
                 uf_same u' i j \<longleftrightarrow>
                   uf_same u i j \<or> (uf_same u i x \<and> uf_same u y j)
                   \<or> (uf_same u i y \<and> uf_same u x j))"
proof -
  from uf_find_correct [OF ok x] obtain rx u1 where
    f1: "uf_find u x = Some (rx, u1)" and r1: "root_of (uf_parent u) x rx"
    and ok1: "uf_ok n u1" and kept1: "roots_kept u u1"
    by blast
  from uf_find_correct [OF ok1 y] obtain ry u2 where
    f2: "uf_find u1 y = Some (ry, u2)" and r2: "root_of (uf_parent u1) y ry"
    and ok2: "uf_ok n u2" and kept2: "roots_kept u1 u2"
    by blast
  have kept: "roots_kept u u2"
    using kept1 kept2 by (rule roots_kept_trans)
  have rootx: "root_of (uf_parent u2) x rx"
    using r1 kept by (simp add: roots_kept_def)
  have rooty: "root_of (uf_parent u2) y ry"
    using r2 kept2 by (simp add: roots_kept_def)
  have rx: "rx < n" and ry: "ry < n"
    using root_of_bound [OF ok2 rootx x] root_of_bound [OF ok2 rooty y] by simp_all
  have px: "uf_parent u2 ! rx = rx" and py: "uf_parent u2 ! ry = ry"
    using rootx rooty by (auto dest: root_of_is_root)
  have old: "uf_same u i j \<longleftrightarrow> uf_same u2 i j" if "i < n" "j < n" for i j
    using roots_kept_same [OF ok kept that] by simp
  have spec: "uf_same u i j \<or> (uf_same u i x \<and> uf_same u y j) \<or> (uf_same u i y \<and> uf_same u x j)
              \<longleftrightarrow> ri = rj \<or> (ri = rx \<and> ry = rj) \<or> (ri = ry \<and> rx = rj)"
    if "i < n" "j < n" "root_of (uf_parent u2) i ri" "root_of (uf_parent u2) j rj" for i j ri rj
    using that x y rootx rooty
    by (simp add: old uf_same_root [of u2 i ri j rj] uf_same_root [of u2 i ri x rx]
          uf_same_root [of u2 y ry j rj] uf_same_root [of u2 i ri y ry]
          uf_same_root [of u2 x rx j rj])
  have linked: "uf_ok n (u2\<lparr>uf_parent := (uf_parent u2)[a := b], uf_rank := rk\<rparr>)
                \<and> (\<forall>i < n. \<forall>j < n.
                     uf_same (u2\<lparr>uf_parent := (uf_parent u2)[a := b], uf_rank := rk\<rparr>) i j \<longleftrightarrow>
                       uf_same u i j \<or> (uf_same u i x \<and> uf_same u y j)
                       \<or> (uf_same u i y \<and> uf_same u x j))"
    if ends: "(a = rx \<and> b = ry) \<or> (a = ry \<and> b = rx)" and ab: "a \<noteq> b"
      and len: "length rk = n" and up: "rk ! a < rk ! b"
      and same: "\<forall>k < n. k \<noteq> b \<longrightarrow> rk ! k = uf_rank u2 ! k"
      and grow: "uf_rank u2 ! b \<le> rk ! b"
    for a b rk
  proof -
    let ?u' = "u2\<lparr>uf_parent := (uf_parent u2)[a := b], uf_rank := rk\<rparr>"
    from ends rx ry px py have a: "a < n" and b: "b < n"
      and pa: "uf_parent u2 ! a = a" and pb: "uf_parent u2 ! b = b"
      by auto
    have ok': "uf_ok n ?u'"
      using ok2 a b pa pb ab len up same grow by (rule uf_link_ok)
    have la: "a < length (uf_parent u2)"
      using ok2 a by (simp add: uf_ok_def)
    have "uf_same ?u' i j \<longleftrightarrow>
            uf_same u i j \<or> (uf_same u i x \<and> uf_same u y j) \<or> (uf_same u i y \<and> uf_same u x j)"
      if i: "i < n" and j: "j < n" for i j
    proof -
      from root_exists [OF ok2 i] obtain ri where ri: "root_of (uf_parent u2) i ri"
        by blast
      from root_exists [OF ok2 j] obtain rj where rj: "root_of (uf_parent u2) j rj"
        by blast
      have "root_of (uf_parent ?u') i (if ri = a then b else ri)"
        and "root_of (uf_parent ?u') j (if rj = a then b else rj)"
        using link_roots [OF pa pb ab la ri] link_roots [OF pa pb ab la rj] by simp_all
      then have "uf_same ?u' i j \<longleftrightarrow> (if ri = a then b else ri) = (if rj = a then b else rj)"
        by (rule uf_same_root)
      also have "\<dots> \<longleftrightarrow> ri = rj \<or> (ri = rx \<and> ry = rj) \<or> (ri = ry \<and> rx = rj)"
        using ends ab by auto
      also have "\<dots> \<longleftrightarrow> uf_same u i j \<or> (uf_same u i x \<and> uf_same u y j)
                        \<or> (uf_same u i y \<and> uf_same u x j)"
        using spec [OF i j ri rj] by simp
      finally show ?thesis .
    qed
    with ok' show ?thesis by blast
  qed
  have len2: "length (uf_rank u2) = n"
    using ok2 by (simp add: uf_ok_def)
  consider (same) "rx = ry" | (less) "rx \<noteq> ry" "uf_rank u2 ! rx < uf_rank u2 ! ry"
    | (greater) "rx \<noteq> ry" "uf_rank u2 ! ry < uf_rank u2 ! rx"
    | (equal) "rx \<noteq> ry" "uf_rank u2 ! rx = uf_rank u2 ! ry"
    by (meson linorder_neqE_nat)
  then show ?thesis
  proof cases
    case same
    then have un: "uf_union u x y = Some u2"
      by (simp add: uf_union_def f1 f2)
    have "uf_same u2 i j \<longleftrightarrow>
            uf_same u i j \<or> (uf_same u i x \<and> uf_same u y j) \<or> (uf_same u i y \<and> uf_same u x j)"
      if i: "i < n" and j: "j < n" for i j
    proof -
      from root_exists [OF ok2 i] obtain ri where ri: "root_of (uf_parent u2) i ri"
        by blast
      from root_exists [OF ok2 j] obtain rj where rj: "root_of (uf_parent u2) j rj"
        by blast
      show ?thesis
        using spec [OF i j ri rj] uf_same_root [OF ri rj] same by auto
    qed
    with un ok2 show ?thesis by blast
  next
    case less
    then have un: "uf_union u x y = Some (u2\<lparr>uf_parent := (uf_parent u2)[rx := ry]\<rparr>)"
      by (simp add: uf_union_def f1 f2)
    have "u2\<lparr>uf_parent := (uf_parent u2)[rx := ry]\<rparr> =
          u2\<lparr>uf_parent := (uf_parent u2)[rx := ry], uf_rank := uf_rank u2\<rparr>"
      by simp
    with linked [of rx ry "uf_rank u2"] less len2 un show ?thesis
      by auto
  next
    case greater
    then have un: "uf_union u x y = Some (u2\<lparr>uf_parent := (uf_parent u2)[ry := rx]\<rparr>)"
      by (simp add: uf_union_def f1 f2)
    have "u2\<lparr>uf_parent := (uf_parent u2)[ry := rx]\<rparr> =
          u2\<lparr>uf_parent := (uf_parent u2)[ry := rx], uf_rank := uf_rank u2\<rparr>"
      by simp
    with linked [of ry rx "uf_rank u2"] greater len2 un show ?thesis
      by auto
  next
    case equal
    then have un: "uf_union u x y =
        Some (u2\<lparr>uf_parent := (uf_parent u2)[ry := rx],
                 uf_rank := (uf_rank u2)[rx := uf_rank u2 ! rx + 1]\<rparr>)"
      by (simp add: uf_union_def f1 f2)
    from linked [of ry rx "(uf_rank u2)[rx := uf_rank u2 ! rx + 1]"] equal len2 rx un
    show ?thesis
      by auto
  qed
qed

lemma chained_sym: "chained E i j \<Longrightarrow> chained E j i"
proof -
  assume "chained E i j"
  then have "(j, i) \<in> ((E \<union> E\<inverse>)\<^sup>*)\<inverse>"
    by (simp add: chained_def)
  also have "((E \<union> E\<inverse>)\<^sup>*)\<inverse> = ((E \<union> E\<inverse>)\<inverse>)\<^sup>*"
    by (simp add: rtrancl_converse)
  also have "(E \<union> E\<inverse>)\<inverse> = E \<union> E\<inverse>"
    by auto
  finally show ?thesis
    by (simp add: chained_def)
qed

lemma chained_refl: "chained E i i"
  by (simp add: chained_def)

lemma chained_trans: "chained E i j \<Longrightarrow> chained E j k \<Longrightarrow> chained E i k"
  unfolding chained_def by (rule rtrancl_trans)

lemma chained_insert:
  "chained (insert (x, y) E) i j \<longleftrightarrow>
     chained E i j \<or> (chained E i x \<and> chained E y j) \<or> (chained E i y \<and> chained E x j)"
proof -
  let ?S = "E \<union> E\<inverse>"
  have split: "insert (x, y) E \<union> (insert (x, y) E)\<inverse> = insert (x, y) (insert (y, x) ?S)"
    by auto
  have "chained (insert (x, y) E) i j \<longleftrightarrow> (i, j) \<in> (insert (x, y) (insert (y, x) ?S))\<^sup>*"
    by (simp only: chained_def split)
  also have "\<dots> \<longleftrightarrow>
      (chained E i j \<or> (chained E i y \<and> chained E x j))
      \<or> ((chained E i x \<or> (chained E i y \<and> chained E x x))
          \<and> (chained E y j \<or> (chained E y y \<and> chained E x j)))"
    by (simp add: rtrancl_insert chained_def)
  also have "\<dots> \<longleftrightarrow>
      chained E i j \<or> (chained E i x \<and> chained E y j) \<or> (chained E i y \<and> chained E x j)"
    using chained_refl [of E] chained_trans [of E] by blast
  finally show ?thesis .
qed

lemma chained_empty: "chained {} i j \<longleftrightarrow> i = j"
  by (simp add: chained_def)

lemma uf_init_ok: "uf_ok n (uf_init n)"
  by (simp add: uf_ok_def uf_init_def)

lemma uf_init_same:
  assumes "i < n" and "j < n"
  shows "uf_same (uf_init n) i j \<longleftrightarrow> i = j"
proof -
  have "root_of (uf_parent (uf_init n)) i i" and "root_of (uf_parent (uf_init n)) j j"
    using assms by (auto simp: uf_init_def intro: root_here)
  then show ?thesis
    by (rule uf_same_root)
qed

lemma union_loop_correct:
  assumes "uf_ok n u"
    and "\<forall>i < n. \<forall>j < n. uf_same u i j \<longleftrightarrow> chained D i j"
    and "\<forall>p \<in> set ps. fst p < n \<and> snd p < n"
    and "sims_ok vectors similarities"
  shows "\<exists>u' similarities'.
           union_loop vectors threshold ps (u, similarities) = Some (u', similarities')
           \<and> uf_ok n u'
           \<and> (\<forall>i < n. \<forall>j < n.
                 uf_same u' i j \<longleftrightarrow>
                   chained (D \<union> {p \<in> set ps. threshold \<le> pair_cos vectors p}) i j)
           \<and> sims_ok vectors similarities'"
  using assms
proof (induction ps arbitrary: u similarities D)
  case Nil
  then show ?case by simp
next
  case (Cons p ps)
  obtain a b where p: "p = (a, b)" by (cases p)
  from Cons.prems(3) p have a: "a < n" and b: "b < n"
    and rest: "\<forall>p \<in> set ps. fst p < n \<and> snd p < n"
    by auto
  show ?case
  proof (cases "threshold \<le> pair_cos vectors p")
    case False
    then have "{q \<in> set (p # ps). threshold \<le> pair_cos vectors q} =
               {q \<in> set ps. threshold \<le> pair_cos vectors q}"
      by auto
    moreover have "union_loop vectors threshold (p # ps) (u, similarities) =
                   union_loop vectors threshold ps (u, similarities)"
      using False by (simp add: p pair_cos_def)
    ultimately show ?thesis
      using Cons.IH [OF Cons.prems(1,2) rest Cons.prems(4)] by (simp only:)
  next
    case True
    from uf_union_correct [OF Cons.prems(1) a b] obtain u1 where
      un: "uf_union u a b = Some u1" and ok1: "uf_ok n u1"
      and same1: "\<forall>i < n. \<forall>j < n.
                    uf_same u1 i j \<longleftrightarrow>
                      uf_same u i j \<or> (uf_same u i a \<and> uf_same u b j)
                      \<or> (uf_same u i b \<and> uf_same u a j)"
      by blast
    have inv1: "\<forall>i < n. \<forall>j < n. uf_same u1 i j \<longleftrightarrow> chained (insert p D) i j"
      using same1 Cons.prems(2) a b by (simp add: p chained_insert)
    let ?sims1 = "similarities((a, b) \<mapsto> pair_cos vectors p)"
    have sims1: "sims_ok vectors ?sims1"
      using Cons.prems(4) by (auto simp: sims_ok_def p)
    have "insert p D \<union> {q \<in> set ps. threshold \<le> pair_cos vectors q} =
          D \<union> {q \<in> set (p # ps). threshold \<le> pair_cos vectors q}"
      using True by auto
    moreover have "union_loop vectors threshold (p # ps) (u, similarities) =
                   union_loop vectors threshold ps (u1, ?sims1)"
      using True by (simp add: p pair_cos_def un)
    ultimately show ?thesis
      using Cons.IH [OF ok1 inv1 rest sims1] by (simp only:)
  qed
qed

lemma set_index_pairs: "set (index_pairs n) = {(i, j). i < j \<and> j < n}"
  by (force simp: index_pairs_def)

lemma clustering_correct:
  "\<exists>u similarities.
     union_loop vectors threshold (index_pairs (length vectors))
       (uf_init (length vectors), Map.empty) = Some (u, similarities)
     \<and> uf_ok (length vectors) u
     \<and> (\<forall>i < length vectors. \<forall>j < length vectors.
           uf_same u i j \<longleftrightarrow> chained (similar_edges vectors threshold) i j)
     \<and> sims_ok vectors similarities"
proof -
  let ?n = "length vectors"
  have "\<forall>i < ?n. \<forall>j < ?n. uf_same (uf_init ?n) i j \<longleftrightarrow> chained {} i j"
    by (simp add: uf_init_same chained_empty)
  moreover have "\<forall>p \<in> set (index_pairs ?n). fst p < ?n \<and> snd p < ?n"
    by (auto simp: set_index_pairs)
  moreover have "sims_ok vectors Map.empty"
    by (simp add: sims_ok_def)
  moreover have "{} \<union> {p \<in> set (index_pairs ?n). threshold \<le> pair_cos vectors p} =
                 similar_edges vectors threshold"
    by (auto simp: set_index_pairs similar_edges_def)
  ultimately show ?thesis
    using union_loop_correct [OF uf_init_ok, of ?n "{}" "index_pairs ?n" vectors Map.empty threshold]
    by simp
qed

lemma group_loop_correct:
  assumes ok0: "uf_ok n u0"
    and "uf_ok n u" and "roots_kept u0 u"
    and "\<forall>i \<in> set rest. i < n"
    and "distinct (map fst groups)"
    and "\<forall>g \<in> set groups. snd g \<noteq> []
           \<and> snd g = filter (\<lambda>i. root_of (uf_parent u0) i (fst g)) done"
    and "\<forall>i \<in> set done. \<exists>k \<in> set (map fst groups). root_of (uf_parent u0) i k"
  shows "\<exists>u' groups'.
           group_loop rest (u, groups) = Some (u', groups')
           \<and> distinct (map fst groups')
           \<and> (\<forall>g \<in> set groups'. snd g \<noteq> []
                 \<and> snd g = filter (\<lambda>i. root_of (uf_parent u0) i (fst g)) (done @ rest))
           \<and> (\<forall>i \<in> set (done @ rest). \<exists>k \<in> set (map fst groups'). root_of (uf_parent u0) i k)"
  using assms(2-)
proof (induction rest arbitrary: u groups "done")
  case Nil
  have "group_loop [] (u, groups) = Some (u, groups)"
    by simp
  with Nil.prems(4,5,6) show ?case
    unfolding append_Nil2 by blast
next
  case (Cons i rest)
  from Cons.prems(3) have i: "i < n" and rest: "\<forall>i \<in> set rest. i < n"
    by simp_all
  from uf_find_correct [OF Cons.prems(1) i] obtain root u1 where
    f: "uf_find u i = Some (root, u1)" and r: "root_of (uf_parent u) i root"
    and ok1: "uf_ok n u1" and kept1: "roots_kept u u1"
    by blast
  have kept01: "roots_kept u0 u1"
    using Cons.prems(2) kept1 by (rule roots_kept_trans)
  have r0: "root_of (uf_parent u0) i root"
    using roots_kept_iff [OF ok0 Cons.prems(2) i] r by simp
  have other: "\<not> root_of (uf_parent u0) i k" if "k \<noteq> root" for k
    using r0 that by (auto dest: root_of_unique)
  let ?upd = "\<lambda>(k, members). if k = root then (k, members @ [i]) else (k, members)"
  let ?groups1 = "if root \<notin> set (map fst groups) then groups @ [(root, [i])]
                  else map ?upd groups"
  have step: "group_loop (i # rest) (u, groups) = group_loop rest (u1, ?groups1)"
    by (simp add: f)
  have "fst \<circ> ?upd = fst"
    by (auto simp: fun_eq_iff)
  then have keys_upd: "map fst (map ?upd groups) = map fst groups"
    by (simp only: map_map)
  have keys1: "distinct (map fst ?groups1)"
  proof (cases "root \<in> set (map fst groups)")
    case False
    with Cons.prems(4) show ?thesis by simp
  next
    case True
    with Cons.prems(4) keys_upd show ?thesis
      by (simp only: if_False not_not not_True_eq_False)
  qed
  have members1: "\<forall>g \<in> set ?groups1. snd g \<noteq> []
           \<and> snd g = filter (\<lambda>j. root_of (uf_parent u0) j (fst g)) (done @ [i])"
  proof (cases "root \<in> set (map fst groups)")
    case False
    have "filter (\<lambda>j. root_of (uf_parent u0) j root) done = []"
    proof (rule ccontr)
      assume "filter (\<lambda>j. root_of (uf_parent u0) j root) done \<noteq> []"
      then obtain j where j: "j \<in> set done" "root_of (uf_parent u0) j root"
        by (auto simp: filter_empty_conv)
      with Cons.prems(6) obtain k where "k \<in> set (map fst groups)" "root_of (uf_parent u0) j k"
        by blast
      with j(2) have "root \<in> set (map fst groups)"
        by (auto dest: root_of_unique)
      with False show False ..
    qed
    with r0 have new: "filter (\<lambda>j. root_of (uf_parent u0) j root) (done @ [i]) = [i]"
      by simp
    have old: "snd g \<noteq> [] \<and> snd g = filter (\<lambda>j. root_of (uf_parent u0) j (fst g)) (done @ [i])"
      if "g \<in> set groups" for g
    proof -
      from that False have "fst g \<noteq> root"
        by auto
      with other have "\<not> root_of (uf_parent u0) i (fst g)"
        by simp
      moreover from Cons.prems(5) that
      have "snd g \<noteq> []" "snd g = filter (\<lambda>j. root_of (uf_parent u0) j (fst g)) done"
        by blast+
      ultimately show ?thesis
        by simp
    qed
    from new have fresh: "snd (root, [i]) \<noteq> []
        \<and> snd (root, [i]) = filter (\<lambda>j. root_of (uf_parent u0) j (fst (root, [i]))) (done @ [i])"
      by simp
    show ?thesis
    proof
      fix g assume "g \<in> set ?groups1"
      with False have "g \<in> set groups \<or> g = (root, [i])"
        by auto
      with old fresh
      show "snd g \<noteq> [] \<and> snd g = filter (\<lambda>j. root_of (uf_parent u0) j (fst g)) (done @ [i])"
        by blast
    qed
  next
    case True
    have "snd (?upd g) \<noteq> []
          \<and> snd (?upd g) = filter (\<lambda>j. root_of (uf_parent u0) j (fst (?upd g))) (done @ [i])"
      if "g \<in> set groups" for g
    proof -
      from Cons.prems(5) that
      have g: "snd g \<noteq> []" "snd g = filter (\<lambda>j. root_of (uf_parent u0) j (fst g)) done"
        by blast+
      show ?thesis
      proof (cases "fst g = root")
        case True
        with g r0 show ?thesis
          by (cases g) auto
      next
        case False
        with other have "\<not> root_of (uf_parent u0) i (fst g)"
          by simp
        with g False show ?thesis
          by (cases g) auto
      qed
    qed
    then have "\<forall>g \<in> set (map ?upd groups). snd g \<noteq> []
           \<and> snd g = filter (\<lambda>j. root_of (uf_parent u0) j (fst g)) (done @ [i])"
      unfolding set_map by blast
    with True show ?thesis
      by (simp only: if_False not_not not_True_eq_False)
  qed
  have keys_mono: "set (map fst groups) \<subseteq> set (map fst ?groups1)"
  proof (cases "root \<in> set (map fst groups)")
    case False
    then show ?thesis by auto
  next
    case True
    with keys_upd show ?thesis
      by (simp only: if_False not_not not_True_eq_False subset_refl)
  qed
  have root_key: "root \<in> set (map fst ?groups1)"
    using keys_mono by (cases "root \<in> set (map fst groups)") auto
  have cover1: "\<forall>j \<in> set (done @ [i]). \<exists>k \<in> set (map fst ?groups1). root_of (uf_parent u0) j k"
  proof
    fix j assume "j \<in> set (done @ [i])"
    then consider "j \<in> set done" | "j = i"
      by auto
    then show "\<exists>k \<in> set (map fst ?groups1). root_of (uf_parent u0) j k"
    proof cases
      case 1
      with Cons.prems(6) keys_mono show ?thesis
        by blast
    next
      case 2
      with r0 root_key show ?thesis
        by blast
    qed
  qed
  from Cons.IH [OF ok1 kept01 rest keys1 members1 cover1] step show ?case
    by (simp only: append_assoc append_Cons append_Nil)
qed

lemma distinct_map_via:
  assumes "distinct (map f xs)"
    and "\<And>x y. x \<in> set xs \<Longrightarrow> y \<in> set xs \<Longrightarrow> g x = g y \<Longrightarrow> f x = f y"
  shows "distinct (map g xs)"
proof -
  from assms(1) have d: "distinct xs" and inj: "inj_on f (set xs)"
    by (simp_all add: distinct_map)
  have "inj_on g (set xs)"
  proof (rule inj_onI)
    fix x y assume x: "x \<in> set xs" and y: "y \<in> set xs" and "g x = g y"
    then have "f x = f y"
      by (rule assms(2))
    with inj x y show "x = y"
      by (auto dest: inj_onD)
  qed
  with d show ?thesis
    by (simp add: distinct_map)
qed

lemma root_class_component:
  assumes ok0: "uf_ok n u0"
    and same: "\<forall>i < n. \<forall>j < n. uf_same u0 i j \<longleftrightarrow> chained E i j"
    and m: "m < n" and r: "root_of (uf_parent u0) m k"
  shows "filter (\<lambda>i. root_of (uf_parent u0) i k) [0..<n] = component_of E n m"
  unfolding component_of_def
proof (rule filter_cong [OF refl])
  fix j assume "j \<in> set [0..<n]"
  then have j: "j < n"
    by simp
  from root_exists [OF ok0 j] obtain rj where rj: "root_of (uf_parent u0) j rj"
    by blast
  from uf_same_root [OF r rj] have "uf_same u0 m j \<longleftrightarrow> k = rj" .
  moreover from rj have "root_of (uf_parent u0) j k \<longleftrightarrow> k = rj"
    by (auto dest: root_of_unique)
  moreover from same m j have "uf_same u0 m j \<longleftrightarrow> chained E m j"
    by blast
  ultimately show "root_of (uf_parent u0) j k \<longleftrightarrow> chained E m j"
    by simp
qed

lemma groups_are_components:
  assumes ok0: "uf_ok n u0"
    and same: "\<forall>i < n. \<forall>j < n. uf_same u0 i j \<longleftrightarrow> chained E i j"
  shows "\<exists>u' groups.
           group_loop [0..<n] (u0, []) = Some (u', groups)
           \<and> distinct (map snd groups)
           \<and> set (map snd groups) = {component_of E n i | i. i < n}"
proof -
  let ?p = "uf_parent u0"
  from group_loop_correct [OF ok0 ok0 roots_kept_refl, of "[0..<n]" "[]" "[]"]
  obtain u' groups where
    run: "group_loop [0..<n] (u0, []) = Some (u', groups)"
    and keys: "distinct (map fst groups)"
    and members: "\<forall>g \<in> set groups. snd g \<noteq> []
                    \<and> snd g = filter (\<lambda>i. root_of ?p i (fst g)) [0..<n]"
    and cover: "\<forall>i \<in> set [0..<n]. \<exists>k \<in> set (map fst groups). root_of ?p i k"
    by auto
  have member: "\<exists>m < n. root_of ?p m (fst g) \<and> snd g = component_of E n m"
    if g: "g \<in> set groups" for g
  proof -
    from members g have ne: "snd g \<noteq> []"
      and eq: "snd g = filter (\<lambda>i. root_of ?p i (fst g)) [0..<n]"
      by blast+
    from ne obtain m where "m \<in> set (snd g)"
      by (cases "snd g") auto
    with eq have "m \<in> set (filter (\<lambda>i. root_of ?p i (fst g)) [0..<n])"
      by simp
    then have m: "m < n" and r: "root_of ?p m (fst g)"
      by simp_all
    from root_class_component [OF ok0 same m r] eq have "snd g = component_of E n m"
      by simp
    with m r show ?thesis
      by blast
  qed
  have "distinct (map snd groups)"
    using keys
  proof (rule distinct_map_via)
    fix g h assume g: "g \<in> set groups" and h: "h \<in> set groups" and eq: "snd g = snd h"
    from member [OF g] obtain m where m: "m < n" "root_of ?p m (fst g)"
      and mg: "snd g = component_of E n m"
      by blast
    from members h have "snd h = filter (\<lambda>i. root_of ?p i (fst h)) [0..<n]"
      by blast
    moreover from m(1) have "m \<in> set (component_of E n m)"
      by (simp add: component_of_def chained_refl)
    ultimately have "root_of ?p m (fst h)"
      using eq mg by simp
    with m(2) show "fst g = fst h"
      by (rule root_of_unique)
  qed
  moreover have "set (map snd groups) = {component_of E n i | i. i < n}"
  proof (intro equalityI subsetI)
    fix ms assume "ms \<in> set (map snd groups)"
    then obtain g where "g \<in> set groups" "ms = snd g"
      by auto
    with member show "ms \<in> {component_of E n i | i. i < n}"
      by blast
  next
    fix ms assume "ms \<in> {component_of E n i | i. i < n}"
    then obtain i where i: "i < n" and ms: "ms = component_of E n i"
      by blast
    from i have "i \<in> set [0..<n]"
      by simp
    with cover obtain k where kin: "k \<in> set (map fst groups)" and r: "root_of ?p i k"
      by blast
    from kin obtain g where g: "g \<in> set groups" and k: "k = fst g"
      by auto
    from members g have "snd g = filter (\<lambda>i. root_of ?p i (fst g)) [0..<n]"
      by blast
    with root_class_component [OF ok0 same i r] k ms have "ms = snd g"
      by simp
    with g show "ms \<in> set (map snd groups)"
      by simp
  qed
  ultimately show ?thesis
    using run by blast
qed

lemma inner_fold:
  "fold (\<lambda>b (total, count). (total + f b, count + 1)) rest (simSum :: rat, simCount :: nat) =
     (simSum + sum_list (map f rest), simCount + length rest)"
  by (induction rest arbitrary: simSum simCount) (simp_all add: algebra_simps)

lemma sum_pairs_eq:
  "sum_pairs vectors similarities members (simSum, simCount) =
     (simSum + sum_list (map (\<lambda>(a, b). pair_similarity vectors similarities a b) (pairs_of members)),
      simCount + length (pairs_of members))"
proof (induction members arbitrary: simSum simCount)
  case Nil
  then show ?case by simp
next
  case (Cons a rest)
  have "sum_pairs vectors similarities (a # rest) (simSum, simCount) =
        sum_pairs vectors similarities rest
          (simSum + sum_list (map (pair_similarity vectors similarities a) rest),
           simCount + length rest)"
    by (simp only: sum_pairs.simps inner_fold)
  also have "\<dots> =
        (simSum + sum_list (map (pair_similarity vectors similarities a) rest)
           + sum_list (map (\<lambda>(a, b). pair_similarity vectors similarities a b) (pairs_of rest)),
         simCount + length rest + length (pairs_of rest))"
    by (rule Cons.IH)
  finally show ?case
    by (simp add: comp_def algebra_simps)
qed

lemma cosineSimilarity_commute: "cosineSimilarity a b = cosineSimilarity b a"
  unfolding cosineSimilarity_def
  by (induction a b rule: list_induct2') (simp_all add: mult.commute)

lemma pair_similarity_cos:
  assumes "sims_ok vectors similarities"
  shows "pair_similarity vectors similarities a b = pair_cos vectors (a, b)"
proof (cases "a < b")
  case True
  with assms show ?thesis
    by (auto simp: pair_similarity_def sims_ok_def pair_cos_def split: option.splits)
next
  case False
  show ?thesis
  proof (cases "similarities (b, a)")
    case None
    with False show ?thesis
      by (simp add: pair_similarity_def pair_cos_def)
  next
    case (Some sim)
    with assms have "sim = pair_cos vectors (b, a)"
      by (simp add: sims_ok_def)
    with Some False show ?thesis
      by (simp add: pair_similarity_def pair_cos_def cosineSimilarity_commute)
  qed
qed

lemma pairs_of_ascending:
  assumes "sorted_wrt (<) members"
  shows "distinct (pairs_of members) \<and> set (pairs_of members) = member_pairs members"
  using assms
proof (induction members)
  case Nil
  then show ?case by (simp add: member_pairs_def)
next
  case (Cons a rest)
  then have above: "\<forall>b \<in> set rest. a < b" and IH: "distinct (pairs_of rest)"
    "set (pairs_of rest) = member_pairs rest"
    by simp_all
  have "member_pairs (a # rest) = Pair a ` set rest \<union> member_pairs rest"
    using above unfolding member_pairs_def by (auto dest: less_asym)
  moreover have "Pair a ` set rest \<inter> member_pairs rest = {}"
    using above unfolding member_pairs_def by auto
  moreover have "distinct (map (Pair a) rest)"
    using Cons.prems by (simp add: distinct_map inj_on_def strict_sorted_iff)
  ultimately show ?case
    using IH by simp
qed

lemma pairs_of_nonempty: "2 \<le> length members \<Longrightarrow> 0 < length (pairs_of members)"
  by (cases members; cases "tl members") auto

lemma build_cluster_spec:
  assumes ok: "sims_ok vectors similarities" and asc: "sorted_wrt (<) members"
    and two: "2 \<le> length members"
  shows "build_cluster vectors similarities members = spec_cluster vectors members"
proof -
  let ?pairs = "pairs_of members"
  from pairs_of_ascending [OF asc]
  have d: "distinct ?pairs" and s: "set ?pairs = member_pairs members"
    by simp_all
  have "map (\<lambda>(a, b). pair_similarity vectors similarities a b) ?pairs =
        map (pair_cos vectors) ?pairs"
    by (rule map_cong) (auto simp: pair_similarity_cos [OF ok])
  then have total: "sum_list (map (\<lambda>(a, b). pair_similarity vectors similarities a b) ?pairs) =
                    (\<Sum>p \<in> member_pairs members. pair_cos vectors p)"
    using d s by (simp add: sum_list_distinct_conv_sum_set)
  from d s have count: "length ?pairs = card (member_pairs members)"
    by (metis distinct_card)
  from pairs_of_nonempty [OF two] count have pos: "0 < card (member_pairs members)"
    by simp
  show ?thesis
    unfolding build_cluster_def spec_cluster_def mean_similarity_def sum_pairs_eq
    using total count pos by simp
qed

lemma component_ascending: "sorted_wrt (<) (component_of E n m)"
  unfolding component_of_def by (rule sorted_wrt_filter) simp

lemma component_length: "length (component_of E n m) \<le> n"
  unfolding component_of_def using length_filter_le [of _ "[0..<n]"] by simp

text \<open>
  C7. A call of \<open>consolidate\<close> whose entity, if one is named, exists returns a result.
  Its clusters are built from a list of groups in which every connected component of the
  graph on the in-scope vectors, with an edge between two vectors whose cosine
  similarity is at least the threshold, occurs exactly once: each group of two or more
  members gives one cluster, with the observations of its members and, as its average
  similarity, the mean cosine over all pairs of its members (also the pairs below the
  threshold that a chain of edges joins) rounded to three decimal places; the clusters
  are ordered by member count, largest first. With fewer than two in-scope vectors there
  is no cluster. Similarities are exact rationals here.
\<close>

theorem consolidate_clusters:
  assumes scope: "consolidate_scope s input = Inr entityId"
  shows "\<exists>result groups.
           consolidate ev s input = Some result
           \<and> cr_success result
           \<and> cr_total_observations result = length (getEmbeddingsByEntity s entityId)
           \<and> distinct groups
           \<and> set groups =
               {component_of
                  (similar_edges (getEmbeddingsByEntity s entityId) (consolidate_threshold input))
                  (length (getEmbeddingsByEntity s entityId)) i | i.
                i < length (getEmbeddingsByEntity s entityId)}
           \<and> cr_clusters result =
               order_by_desc (\<lambda>c. length (cl_observations c))
                 (map (spec_cluster (getEmbeddingsByEntity s entityId))
                    (filter (\<lambda>members. 2 \<le> length members) groups))
           \<and> sorted_wrt (\<lambda>a b. length (cl_observations b) \<le> length (cl_observations a))
                (cr_clusters result)
           \<and> (length (getEmbeddingsByEntity s entityId) < 2 \<longrightarrow> cr_clusters result = [])"
proof -
  let ?vs = "getEmbeddingsByEntity s entityId"
  let ?n = "length ?vs"
  let ?th = "consolidate_threshold input"
  let ?E = "similar_edges ?vs ?th"
  let ?size = "\<lambda>c. length (cl_observations c)"
  let ?components = "{component_of ?E ?n i | i. i < ?n}"
  show ?thesis
  proof (cases "?n < 2")
    case True
    have "finite ?components"
      by simp
    from finite_distinct_list [OF this]
    obtain groups where groups: "set groups = ?components" "distinct groups"
      by (elim exE conjE)
    have "filter (\<lambda>members. 2 \<le> length members) groups = []"
    proof -
      have "\<not> 2 \<le> length members" if "members \<in> set groups" for members
      proof -
        from that groups(1) obtain i where "members = component_of ?E ?n i"
          by blast
        with component_length [of ?E ?n i] True show ?thesis
          by simp
      qed
      then show ?thesis
        by (simp add: filter_empty_conv)
    qed
    then have none: "order_by_desc ?size
                 (map (spec_cluster ?vs) (filter (\<lambda>members. 2 \<le> length members) groups)) = []"
      by (simp add: order_by_desc_def)
    define result where "result = \<lparr>cr_success = True, cr_total_observations = ?n, cr_clusters = [],
        cr_message = (if ?n = 0 then ''No observations found.''
                      else ''Only one observation '' @ em_dash @ '' nothing to consolidate.'')\<rparr>"
    have fields: "cr_success result" "cr_total_observations result = ?n" "cr_clusters result = []"
      by (simp_all add: result_def)
    have "consolidate ev s input = Some result"
      unfolding consolidate_def Let_def result_def
      by (simp only: scope sum.case True if_True)
    with groups none fields show ?thesis
      by (intro exI [of _ result] exI [of _ groups] conjI impI)
         (simp_all only: sorted_wrt.simps simp_thms)
  next
    case False
    from clustering_correct [of ?vs ?th] obtain u similarities where
      run1: "union_loop ?vs ?th (index_pairs ?n) (uf_init ?n, Map.empty) = Some (u, similarities)"
      and ok: "uf_ok ?n u"
      and same: "\<forall>i < ?n. \<forall>j < ?n. uf_same u i j \<longleftrightarrow> chained ?E i j"
      and sims: "sims_ok ?vs similarities"
      by blast
    from groups_are_components [OF ok same] obtain u' groups where
      run2: "group_loop [0..<?n] (u, []) = Some (u', groups)"
      and d: "distinct (map snd groups)"
      and comps: "set (map snd groups) = ?components"
      by blast
    let ?big = "filter (\<lambda>members. 2 \<le> length members) (map snd groups)"
    have big: "filter (\<lambda>members. \<not> length members < 2) (map snd groups) = ?big"
      by (rule filter_cong) auto
    have same_clusters: "map (build_cluster ?vs similarities) ?big = map (spec_cluster ?vs) ?big"
    proof (rule map_cong [OF refl])
      fix members assume "members \<in> set ?big"
      then have in_groups: "members \<in> set (map snd groups)" and two: "2 \<le> length members"
        by simp_all
      from in_groups have "members \<in> ?components"
        by (simp only: comps)
      then obtain i where "members = component_of ?E ?n i"
        by blast
      with component_ascending have "sorted_wrt (<) members"
        by simp
      with sims show "build_cluster ?vs similarities members = spec_cluster ?vs members"
        using two by (rule build_cluster_spec)
    qed
    have clusters:
      "order_by_desc ?size (map (build_cluster ?vs similarities)
           (filter (\<lambda>members. \<not> length members < 2) (map snd groups))) =
       order_by_desc ?size (map (spec_cluster ?vs) ?big)"
      by (simp only: big same_clusters)
    let ?clusters = "order_by_desc ?size (map (spec_cluster ?vs) ?big)"
    define result where "result = \<lparr>cr_success = True, cr_total_observations = ?n,
        cr_clusters = ?clusters,
        cr_message =
          (if length ?clusters = 0
           then ''Scanned '' @ string_of_nat ?n
                @ '' observations '' @ em_dash @ '' no clusters found above threshold ''
                @ number_toString ev ?th @ ''.''
           else ''Found '' @ string_of_nat (length ?clusters)
                @ '' cluster(s) across '' @ string_of_nat ?n
                @ '' observations. Review each cluster and use ''
                @ ''remember + forget to merge.'')\<rparr>"
    have fields: "cr_success result" "cr_total_observations result = ?n"
      "cr_clusters result = ?clusters"
      by (simp_all add: result_def)
    have "consolidate ev s input = Some result"
      unfolding consolidate_def Let_def result_def
      by (simp only: scope sum.case False if_False run1 run2 Option.bind.simps prod.case clusters)
    moreover have "sorted_wrt (\<lambda>a b. ?size b \<le> ?size a) ?clusters"
      by (rule order_by_desc_sorted)
    ultimately show ?thesis
      using False d comps fields
      by (intro exI [of _ result] exI [of _ "map snd groups"] conjI impI)
         (simp_all only: simp_thms)
  qed
qed

lemma scope_chain: "consolidate_scope store_chain consolidate_k = Inr (Some ''e1'')"
  by (simp add: consolidate_scope_def store_chain_def consolidate_k_def findEntityByName_def)

lemma vectors_chain: "getEmbeddingsByEntity store_chain (Some ''e1'') = chain_vectors"
  by (simp add: getEmbeddingsByEntity_def joined_embeddings_def store_chain_def chain_vectors_def)

lemma union_chain:
  "union_loop chain_vectors (4 / 5) (index_pairs 3) (uf_init 3, Map.empty) =
     Some (\<lparr>uf_parent = [0, 0, 0], uf_rank = [1, 0, 0]\<rparr>,
           [(0, 1) \<mapsto> 4 / 5, (1, 2) \<mapsto> 4 / 5])"
  by (simp add: index_pairs_def uf_init_def chain_vectors_def cosineSimilarity_def
        uf_union_def uf_find.simps upt_rec [of 0] numeral_3_eq_3 numeral_2_eq_2 Let_def)

lemma group_chain:
  "group_loop [0..<3] (\<lparr>uf_parent = [0, 0, 0], uf_rank = [1, 0, 0]\<rparr>, []) =
     Some (\<lparr>uf_parent = [0, 0, 0], uf_rank = [1, 0, 0]\<rparr>, [(0, [0, 1, 2])])"
  by (simp add: uf_find.simps upt_rec [of 0] numeral_3_eq_3 numeral_2_eq_2)

lemma cluster_chain:
  "build_cluster chain_vectors [(0, 1) \<mapsto> 4 / 5, (1, 2) \<mapsto> 4 / 5] [0, 1, 2] =
     \<lparr>cl_observations =
        [\<lparr>co_observation_id = ''o1'', co_entity = ''k'', co_type = None, co_content = ''a'',
          co_source = None, co_remembered_at = ''t0''\<rparr>,
         \<lparr>co_observation_id = ''o2'', co_entity = ''k'', co_type = None, co_content = ''b'',
          co_source = None, co_remembered_at = ''t0''\<rparr>,
         \<lparr>co_observation_id = ''o3'', co_entity = ''k'', co_type = None, co_content = ''c'',
          co_source = None, co_remembered_at = ''t0''\<rparr>],
      cl_avg_similarity = 627 / 1000\<rparr>"
  by (simp add: build_cluster_def pair_similarity_def chain_vectors_def cosineSimilarity_def
        toClusterObservation_def Math_round_def floor_numeral_div)

lemma threshold_chain: "consolidate_threshold consolidate_k = 4 / 5"
  by (simp add: consolidate_threshold_def consolidate_k_def)

lemma length_chain: "length chain_vectors = 3"
  by (simp add: chain_vectors_def)

lemma digits_chain: "string_of_nat (Suc 0) = ''1''" "string_of_nat 3 = ''3''"
  by code_simp+

lemma short_chain: "((3::nat) < 2) = False"
  by simp

lemma big_chain:
  "filter (\<lambda>members. \<not> length members < 2) [[0, 1, 2::nat]] = [[0, 1, 2]]"
  by simp

lemma consolidate_chain:
  "consolidate env_fixed store_chain consolidate_k =
     Some \<lparr>cr_success = True, cr_total_observations = 3, cr_clusters = [chain_cluster],
           cr_message = ''Found 1 cluster(s) across 3 observations. Review each cluster and use remember + forget to merge.''\<rparr>"
  unfolding consolidate_def Let_def
  by (simp only: scope_chain sum.case vectors_chain length_chain threshold_chain union_chain
        group_chain big_chain list.map cluster_chain chain_cluster_def [symmetric]
        Option.bind.simps prod.case short_chain if_False snd_conv)
     (simp add: order_by_desc_def digits_chain del: string_of_nat.simps)

lemma scope_k: "consolidate_scope store_k consolidate_k = Inr (Some ''e1'')"
  by (simp add: consolidate_scope_def store_k_def consolidate_k_def findEntityByName_def)

lemma length_k: "length (getEmbeddingsByEntity store_k (Some ''e1'')) = 1"
  by (simp add: getEmbeddingsByEntity_def joined_embeddings_def store_k_def)

theorem consolidate_clusters_witness:
  "consolidate_scope store_chain consolidate_k = Inr (Some ''e1'')
   \<and> (\<exists>result groups.
         consolidate env_fixed store_chain consolidate_k = Some result
         \<and> cr_clusters result = [chain_cluster]
         \<and> distinct groups
         \<and> set groups = {component_of (similar_edges chain_vectors (4 / 5)) 3 i | i. i < 3}
         \<and> cr_clusters result =
             order_by_desc (\<lambda>c. length (cl_observations c))
               (map (spec_cluster chain_vectors)
                  (filter (\<lambda>members. 2 \<le> length members) groups)))
   \<and> consolidate_scope store_k consolidate_k = Inr (Some ''e1'')
   \<and> (\<exists>result.
         consolidate env_fixed store_k consolidate_k = Some result
         \<and> cr_total_observations result = 1 \<and> cr_clusters result = [])"
proof -
  have three: "\<exists>result groups.
         consolidate env_fixed store_chain consolidate_k = Some result
         \<and> cr_clusters result = [chain_cluster]
         \<and> distinct groups
         \<and> set groups = {component_of (similar_edges chain_vectors (4 / 5)) 3 i | i. i < 3}
         \<and> cr_clusters result =
             order_by_desc (\<lambda>c. length (cl_observations c))
               (map (spec_cluster chain_vectors)
                  (filter (\<lambda>members. 2 \<le> length members) groups))"
    using consolidate_clusters [OF scope_chain, of env_fixed]
    by (simp only: vectors_chain length_chain threshold_chain consolidate_chain) auto
  have one: "\<exists>result.
         consolidate env_fixed store_k consolidate_k = Some result
         \<and> cr_total_observations result = 1 \<and> cr_clusters result = []"
    using consolidate_clusters [OF scope_k, of env_fixed]
    by (simp only: length_k) auto
  from three one scope_chain scope_k show ?thesis
    by (intro conjI)
qed

end
